theory Spec2Isabelle
  imports Main "HOL-Library.Monad_Syntax"
begin

section \<open>Vertices, set nodes and the state of the engine\<close>

text \<open>
  A vertex pointer of the source (\<^verbatim>\<open>VertexPtr\<close>) is either one of the two terminals of
  the diagram (\<^verbatim>\<open>kBase_\<close>, \<^verbatim>\<open>kEmpty_\<close>) or a pointer to a \<^verbatim>\<open>SetNode\<close>.  Every
  \<^verbatim>\<open>SetNode\<close> is created by \<^verbatim>\<open>FetchUniqueTable\<close> with the next value of the counter
  \<^verbatim>\<open>set_id_\<close>, so a pointer to a set node is modelled by the id of the node, and the
  heap of set nodes by a map from ids to nodes.
\<close>

datatype vertex = Terminal bool | SetNodeRef nat

abbreviation kBase :: vertex where "kBase \<equiv> Terminal True"

abbreviation kEmpty :: vertex where "kEmpty \<equiv> Terminal False"

fun terminal :: "vertex \<Rightarrow> bool" where
  "terminal (Terminal b) = True"
| "terminal (SetNodeRef i) = False"

text \<open>
  Modelled from the spec: the declarations of \<^verbatim>\<open>Vertex\<close>, \<^verbatim>\<open>Terminal\<close> and
  \<^verbatim>\<open>NonTerminal\<close> (header \<^verbatim>\<open>bdd.h\<close>) are not part of the sources.  The spec says
  that the terminals reserve the ids 0 and 1 and that new set nodes start at 2, which
  is the initial value of \<^verbatim>\<open>set_id_\<close> in the constructor.
\<close>

fun vertex_id :: "vertex \<Rightarrow> nat" where
  "vertex_id (Terminal b) = (if b then 1 else 0)"
| "vertex_id (SetNodeRef i) = i"

record SetNode =
  index :: int
  order :: int
  high :: vertex
  low :: vertex
  module :: bool
  minimal :: bool
  mark :: bool
  node_cut_sets :: "int list list"

datatype Operator = kAndGate | kOrGate

text \<open>
  The members of class \<^verbatim>\<open>Zbdd\<close>.  The unique table holds weak pointers: an expired
  entry is an absent key.  Reference counting and the garbage collector are not
  modelled: a node stays in \<open>nodes\<close> after its last owner is gone, ids are never
  reused, and no operation below removes an entry of the unique table.  The statements
  about the operations hold for every content of the unique table, hence for every
  set of entries that the collector may have evicted before the call.
  Field \<open>limit_order\<close> is \<^verbatim>\<open>kSettings_.limit_order()\<close>.
\<close>

record Zbdd =
  limit_order :: int
  nodes :: "nat \<rightharpoonup> SetNode"
  unique_table :: "(int \<times> nat \<times> nat) \<rightharpoonup> nat"
  and_table :: "(nat \<times> nat \<times> int) \<rightharpoonup> vertex"
  or_table :: "(nat \<times> nat \<times> int) \<rightharpoonup> vertex"
  minimal_results :: "nat \<rightharpoonup> vertex"
  subsume_table :: "(nat \<times> nat) \<rightharpoonup> vertex"
  modules :: "int \<rightharpoonup> vertex"
  set_id :: nat
  root :: vertex
  cut_sets :: "int list list"

text \<open>The constructor \<^verbatim>\<open>Zbdd::Zbdd(const Settings&)\<close>: empty tables, counter at 2.\<close>

definition Zbdd_init :: "int \<Rightarrow> Zbdd" where
  "Zbdd_init lim =
     \<lparr> limit_order = lim, nodes = Map.empty, unique_table = Map.empty,
       and_table = Map.empty, or_table = Map.empty, minimal_results = Map.empty,
       subsume_table = Map.empty, modules = Map.empty, set_id = 2,
       root = kEmpty, cut_sets = [] \<rparr>"

section \<open>The unique table\<close>

text \<open>
  \<^verbatim>\<open>Zbdd::FetchUniqueTable\<close>: the entry of the key \<open>(index, high id, low id)\<close> when it
  has not expired, a new node with id \<^verbatim>\<open>set_id_++\<close> otherwise.  The new node has the
  default flags of the class (\<^verbatim>\<open>minimal_ = false\<close>, no mark, no cut sets) and the
  module flag of the call.
\<close>

definition FetchUniqueTable ::
  "int \<Rightarrow> vertex \<Rightarrow> vertex \<Rightarrow> int \<Rightarrow> bool \<Rightarrow> Zbdd \<Rightarrow> vertex \<times> Zbdd" where
  "FetchUniqueTable idx h l ord mdl s =
     (case unique_table s (idx, vertex_id h, vertex_id l) of
        Some n \<Rightarrow> (SetNodeRef n, s)
      | None \<Rightarrow>
          (SetNodeRef (set_id s),
           s\<lparr> nodes := (nodes s)(set_id s \<mapsto>
                  \<lparr> index = idx, order = ord, high = h, low = l, module = mdl,
                    minimal = False, mark = False, node_cut_sets = [] \<rparr>),
              unique_table := (unique_table s)((idx, vertex_id h, vertex_id l) \<mapsto> set_id s),
              set_id := Suc (set_id s) \<rparr>))"

text \<open>The setter \<^verbatim>\<open>SetNode::minimal(bool)\<close> through a pointer to the node.\<close>

definition set_minimal :: "vertex \<Rightarrow> bool \<Rightarrow> Zbdd \<Rightarrow> Zbdd" where
  "set_minimal v flag s =
     (case v of
        Terminal b \<Rightarrow> s
      | SetNodeRef i \<Rightarrow>
          (case nodes s i of
             None \<Rightarrow> s
           | Some nd \<Rightarrow> s\<lparr> nodes := (nodes s)(i \<mapsto> nd\<lparr> minimal := flag \<rparr>) \<rparr>))"

section \<open>Subsume and Minimize\<close>

text \<open>
  The recursive operations take a bound on the depth of the recursion as their first
  argument and return \<open>None\<close> when the bound is reached (or when a pointer leads out
  of the heap, which a shared pointer of the source cannot do).
  \<^verbatim>\<open>Zbdd::Subsume(high, low)\<close>, with its memo table \<^verbatim>\<open>subsume_table_\<close>: the
  construction of the result from the two sub-results (\<open>Subsume_result\<close>), the body
  for two set nodes with the recursive calls as a parameter (\<open>Subsume_SetNodes\<close>), and
  the function itself.
\<close>

definition Subsume_result ::
  "nat \<Rightarrow> SetNode \<Rightarrow> vertex \<Rightarrow> vertex \<Rightarrow> Zbdd \<Rightarrow> (vertex \<times> Zbdd) option" where
  "Subsume_result hi high_node subhigh sublow s =
     (if subhigh = kEmpty then Some (sublow, s)
      else
        (let (new_high, s1) =
               FetchUniqueTable (index high_node) subhigh sublow
                 (order high_node) (module high_node) s
         in do {
           high_now \<leftarrow> nodes s1 hi;
           Some (new_high, set_minimal new_high (minimal high_now) s1) }))"

definition Subsume_SetNodes ::
  "(vertex \<Rightarrow> vertex \<Rightarrow> Zbdd \<Rightarrow> (vertex \<times> Zbdd) option) \<Rightarrow>
   vertex \<Rightarrow> vertex \<Rightarrow> Zbdd \<Rightarrow> (vertex \<times> Zbdd) option" where
  "Subsume_SetNodes sub h l s =
     do {
       high_node \<leftarrow> nodes s (vertex_id h);
       low_node \<leftarrow> nodes s (vertex_id l);
       if order high_node > order low_node \<or>
          (order high_node = order low_node \<and> index high_node < index low_node)
       then sub h (low low_node) s
       else do {
         (subhigh, sublow, s3) \<leftarrow>
           (if order high_node = order low_node \<and> index high_node = index low_node
            then do {
              (subhigh0, s1) \<leftarrow> sub (high high_node) (high low_node) s;
              (subhigh, s2) \<leftarrow> sub subhigh0 (low low_node) s1;
              (sublow, s3) \<leftarrow> sub (low high_node) (low low_node) s2;
              Some (subhigh, sublow, s3) }
            else do {
              (subhigh, s1) \<leftarrow> sub (high high_node) l s;
              (sublow, s2) \<leftarrow> sub (low high_node) l s1;
              Some (subhigh, sublow, s2) });
         Subsume_result (vertex_id h) high_node subhigh sublow s3 }
     }"

primrec Subsume :: "nat \<Rightarrow> vertex \<Rightarrow> vertex \<Rightarrow> Zbdd \<Rightarrow> (vertex \<times> Zbdd) option" where
  "Subsume 0 h l s = None"
| "Subsume (Suc n) h l s =
     (case l of
        Terminal b \<Rightarrow> Some (if b then kEmpty else h, s)
      | SetNodeRef li \<Rightarrow>
     (case h of
        Terminal b \<Rightarrow> Some (h, s)
      | SetNodeRef hi \<Rightarrow>
     (case subsume_table s (hi, li) of
        Some computed \<Rightarrow> Some (computed, s)
      | None \<Rightarrow>
          do {
            (computed, s') \<leftarrow> Subsume_SetNodes (Subsume n) h l s;
            Some (computed, s'\<lparr> subsume_table := (subsume_table s')((hi, li) \<mapsto> computed) \<rparr>)
          })))"

text \<open>
  \<^verbatim>\<open>Zbdd::Minimize\<close>, with its memo table \<^verbatim>\<open>minimal_results_\<close>.  The assertion that
  the subsumed high branch differs from the low branch is not part of the model of the
  function; it is a consequence of the invariant below.
\<close>

definition Minimize_SetNode ::
  "(vertex \<Rightarrow> Zbdd \<Rightarrow> (vertex \<times> Zbdd) option) \<Rightarrow>
   (vertex \<Rightarrow> vertex \<Rightarrow> Zbdd \<Rightarrow> (vertex \<times> Zbdd) option) \<Rightarrow>
   SetNode \<Rightarrow> Zbdd \<Rightarrow> (vertex \<times> Zbdd) option" where
  "Minimize_SetNode mi sub node s =
     do {
       (high1, s1) \<leftarrow> mi (high node) s;
       (low1, s2) \<leftarrow> mi (low node) s1;
       (high2, s3) \<leftarrow> sub high1 low1 s2;
       if high2 = kEmpty then Some (low1, s3)
       else
         (let (result, s4) =
                FetchUniqueTable (index node) high2 low1 (order node) (module node) s3
          in Some (result, set_minimal result True s4))
     }"

primrec Minimize :: "nat \<Rightarrow> vertex \<Rightarrow> Zbdd \<Rightarrow> (vertex \<times> Zbdd) option" where
  "Minimize 0 v s = None"
| "Minimize (Suc n) v s =
     (case v of
        Terminal b \<Rightarrow> Some (v, s)
      | SetNodeRef i \<Rightarrow>
          do {
            node \<leftarrow> nodes s i;
            if minimal node then Some (v, s)
            else
              (case minimal_results s i of
                 Some result \<Rightarrow> Some (result, s)
               | None \<Rightarrow>
                   do {
                     (result, s5) \<leftarrow> Minimize_SetNode (Minimize n) (Subsume n) node s;
                     Some (result, s5\<lparr> minimal_results := (minimal_results s5)(i \<mapsto> result) \<rparr>)
                   })
          })"

text \<open>
  The first phase of \<^verbatim>\<open>Zbdd::Analyze\<close>: every entry of \<^verbatim>\<open>modules_\<close> is replaced by
  its minimized vertex, then the root is.  The loop runs over an unordered map; the
  list \<open>ks\<close> is the order in which the keys are visited.
\<close>

primrec MinimizeModules :: "nat \<Rightarrow> int list \<Rightarrow> Zbdd \<Rightarrow> Zbdd option" where
  "MinimizeModules n [] s = Some s"
| "MinimizeModules n (k # ks) s =
     (case modules s k of
        None \<Rightarrow> MinimizeModules n ks s
      | Some v \<Rightarrow>
          do {
            (r, s') \<leftarrow> Minimize n v s;
            MinimizeModules n ks (s'\<lparr> modules := (modules s')(k \<mapsto> r) \<rparr>)
          })"

definition Analyze_minimize :: "nat \<Rightarrow> int list \<Rightarrow> Zbdd \<Rightarrow> Zbdd option" where
  "Analyze_minimize n ks s =
     do {
       s1 \<leftarrow> MinimizeModules n ks s;
       (r, s2) \<leftarrow> Minimize n (root s1) s1;
       Some (s2\<lparr> root := r \<rparr>)
     }"

section \<open>Apply\<close>

text \<open>\<^verbatim>\<open>Zbdd::FetchComputeTable\<close>: the slot of the unordered pair of ids and the order.\<close>

definition compute_key :: "vertex \<Rightarrow> vertex \<Rightarrow> int \<Rightarrow> nat \<times> nat \<times> int" where
  "compute_key arg_one arg_two ord =
     (min (vertex_id arg_one) (vertex_id arg_two),
      max (vertex_id arg_one) (vertex_id arg_two), ord)"

definition FetchComputeTable ::
  "Operator \<Rightarrow> vertex \<Rightarrow> vertex \<Rightarrow> int \<Rightarrow> Zbdd \<Rightarrow> vertex option" where
  "FetchComputeTable type arg_one arg_two ord s =
     (case type of
        kOrGate \<Rightarrow> or_table s (compute_key arg_one arg_two ord)
      | kAndGate \<Rightarrow> and_table s (compute_key arg_one arg_two ord))"

definition StoreComputeTable ::
  "Operator \<Rightarrow> vertex \<Rightarrow> vertex \<Rightarrow> int \<Rightarrow> vertex \<Rightarrow> Zbdd \<Rightarrow> Zbdd" where
  "StoreComputeTable type arg_one arg_two ord result s =
     (case type of
        kOrGate \<Rightarrow> s\<lparr> or_table := (or_table s)(compute_key arg_one arg_two ord \<mapsto> result) \<rparr>
      | kAndGate \<Rightarrow> s\<lparr> and_table := (and_table s)(compute_key arg_one arg_two ord \<mapsto> result) \<rparr>)"

text \<open>\<^verbatim>\<open>Zbdd::Apply(type, term_one, term_two)\<close> on the values of two terminals.\<close>

definition Apply_Terminals :: "Operator \<Rightarrow> bool \<Rightarrow> bool \<Rightarrow> vertex" where
  "Apply_Terminals type term_one term_two =
     (case type of
        kOrGate \<Rightarrow> (if term_one \<or> term_two then kBase else kEmpty)
      | kAndGate \<Rightarrow> (if \<not> term_one \<or> \<not> term_two then kEmpty else kBase))"

text \<open>\<^verbatim>\<open>Zbdd::Apply(type, set_node, term)\<close> on a set node and the value of a terminal.\<close>

definition Apply_SetNode_Terminal :: "Operator \<Rightarrow> vertex \<Rightarrow> bool \<Rightarrow> vertex" where
  "Apply_SetNode_Terminal type set_node term =
     (case type of
        kOrGate \<Rightarrow> (if term then kBase else set_node)
      | kAndGate \<Rightarrow> (if \<not> term then kEmpty else set_node))"

text \<open>
  \<^verbatim>\<open>Zbdd::Apply(type, arg_one, arg_two, limit_order)\<close> on two set nodes.  The recursive
  calls go through the parameter \<open>ap\<close> (the overload on vertices) and the final
  minimization through \<open>mi\<close>.  The first component computes the two branches; the
  early \<^verbatim>\<open>return kBase_\<close> of the disjunction is the \<open>Inr\<close> case.  The arguments of the
  nested call of the conjunction are evaluated from left to right.
\<close>

definition Apply_branches ::
  "(Operator \<Rightarrow> vertex \<Rightarrow> vertex \<Rightarrow> int \<Rightarrow> Zbdd \<Rightarrow> (vertex \<times> Zbdd) option) \<Rightarrow>
   Operator \<Rightarrow> SetNode \<Rightarrow> vertex \<Rightarrow> SetNode \<Rightarrow> int \<Rightarrow> Zbdd \<Rightarrow>
   ((vertex \<times> vertex + vertex) \<times> Zbdd) option" where
  "Apply_branches ap type arg_one v_two arg_two lim s =
     (let limit_high = (if index arg_one < 0 \<or> module arg_one then lim else lim - 1) in
      if order arg_one = order arg_two \<and> index arg_one = index arg_two then
        (case type of
           kOrGate \<Rightarrow> do {
             (h, s1) \<leftarrow> ap kOrGate (high arg_one) (high arg_two) limit_high s;
             (l, s2) \<leftarrow> ap kOrGate (low arg_one) (low arg_two) lim s1;
             Some (Inl (h, l), s2) }
         | kAndGate \<Rightarrow> do {
             (t1, s1) \<leftarrow> ap kOrGate (high arg_two) (low arg_two) limit_high s;
             (t2, s2) \<leftarrow> ap kAndGate (high arg_one) t1 limit_high s1;
             (t3, s3) \<leftarrow> ap kAndGate (low arg_one) (high arg_two) limit_high s2;
             (h, s4) \<leftarrow> ap kOrGate t2 t3 limit_high s3;
             (l, s5) \<leftarrow> ap kAndGate (low arg_one) (low arg_two) lim s4;
             Some (Inl (h, l), s5) })
      else
        (case type of
           kOrGate \<Rightarrow>
             if order arg_one = order arg_two \<and>
                terminal (high arg_one) \<and> terminal (high arg_two)
             then Some (Inr kBase, s)
             else do {
               (l, s1) \<leftarrow> ap kOrGate (low arg_one) v_two lim s;
               Some (Inl (high arg_one, l), s1) }
         | kAndGate \<Rightarrow> do {
             (h, s1) \<leftarrow>
               (if order arg_one = order arg_two
                then ap kAndGate (high arg_one) (low arg_two) limit_high s
                else ap kAndGate (high arg_one) v_two limit_high s);
             (l, s2) \<leftarrow> ap kAndGate (low arg_one) v_two lim s1;
             Some (Inl (h, l), s2) }))"

text \<open>
  The replacement of the computed high branch before the node is fetched: a set node
  at the order of \<^verbatim>\<open>arg_one\<close> (the complement of its variable) gives way to its low
  branch.
\<close>

definition complement_high :: "SetNode \<Rightarrow> vertex \<Rightarrow> Zbdd \<Rightarrow> vertex option" where
  "complement_high arg_one high0 s =
     (case high0 of
        Terminal b \<Rightarrow> Some high0
      | SetNodeRef hi \<Rightarrow>
          do {
            high_node \<leftarrow> nodes s hi;
            Some (if order high_node = order arg_one then low high_node else high0)
          })"

definition Apply_SetNodes ::
  "(Operator \<Rightarrow> vertex \<Rightarrow> vertex \<Rightarrow> int \<Rightarrow> Zbdd \<Rightarrow> (vertex \<times> Zbdd) option) \<Rightarrow>
   (vertex \<Rightarrow> Zbdd \<Rightarrow> (vertex \<times> Zbdd) option) \<Rightarrow>
   Operator \<Rightarrow> vertex \<Rightarrow> vertex \<Rightarrow> int \<Rightarrow> Zbdd \<Rightarrow> (vertex \<times> Zbdd) option" where
  "Apply_SetNodes ap mi type v_one v_two lim s =
     do {
       arg_one \<leftarrow> nodes s (vertex_id v_one);
       arg_two \<leftarrow> nodes s (vertex_id v_two);
       (branches, s1) \<leftarrow> Apply_branches ap type arg_one v_two arg_two lim s;
       (case branches of
          Inr early \<Rightarrow> Some (early, s1)
        | Inl (high0, low1) \<Rightarrow>
            do {
              high1 \<leftarrow> complement_high arg_one high0 s1;
              if vertex_id high1 = vertex_id low1 then Some (low1, s1)
              else if high1 = kEmpty then Some (low1, s1)
              else
                (let (node, s2) =
                       FetchUniqueTable (index arg_one) high1 low1
                         (order arg_one) (module arg_one) s1
                 in mi node s2)
            })
     }"

text \<open>
  The two conditional \<^verbatim>\<open>std::swap\<close> calls of \<^verbatim>\<open>Zbdd::Apply\<close>: the result tells
  whether \<^verbatim>\<open>set_one\<close> and \<^verbatim>\<open>set_two\<close> end up exchanged.
\<close>

definition swap_args :: "SetNode \<Rightarrow> SetNode \<Rightarrow> bool" where
  "swap_args node_one node_two =
     (let swapped1 = (order node_one > order node_two);
          set_one = (if swapped1 then node_two else node_one);
          set_two = (if swapped1 then node_one else node_two);
          swapped2 = (order set_one = order set_two \<and> index set_one < index set_two)
      in swapped1 \<noteq> swapped2)"

text \<open>
  \<^verbatim>\<open>Zbdd::Apply(type, arg_one, arg_two, limit_order)\<close> on vertices: the cut-off, the
  terminal cases, equal ids, the compute table, and the ordering of the two set nodes
  before the overload on set nodes is called.
\<close>

primrec Apply ::
  "nat \<Rightarrow> Operator \<Rightarrow> vertex \<Rightarrow> vertex \<Rightarrow> int \<Rightarrow> Zbdd \<Rightarrow> (vertex \<times> Zbdd) option" where
  "Apply 0 type arg_one arg_two lim s = None"
| "Apply (Suc n) type arg_one arg_two lim s =
     (if lim < 0 then Some (kEmpty, s)
      else
        (case (arg_one, arg_two) of
           (Terminal t1, Terminal t2) \<Rightarrow> Some (Apply_Terminals type t1 t2, s)
         | (Terminal t1, SetNodeRef j) \<Rightarrow> Some (Apply_SetNode_Terminal type arg_two t1, s)
         | (SetNodeRef i, Terminal t2) \<Rightarrow> Some (Apply_SetNode_Terminal type arg_one t2, s)
         | (SetNodeRef i, SetNodeRef j) \<Rightarrow>
             if i = j then Some (arg_one, s)
             else
               (case FetchComputeTable type arg_one arg_two lim s of
                  Some result \<Rightarrow> Some (result, s)
                | None \<Rightarrow>
                    do {
                      node_one \<leftarrow> nodes s i;
                      node_two \<leftarrow> nodes s j;
                      (result, s') \<leftarrow>
                        (if swap_args node_one node_two
                         then Apply_SetNodes (Apply n) (Minimize n) type arg_two arg_one lim s
                         else Apply_SetNodes (Apply n) (Minimize n) type arg_one arg_two lim s);
                      Some (result, StoreComputeTable type arg_one arg_two lim result s')
                    })))"

section \<open>Well-formed pointers\<close>

text \<open>A pointer to a set node carries an id that was given out by the counter.\<close>

definition valid_id :: "vertex \<Rightarrow> bool" where
  "valid_id v = (case v of Terminal b \<Rightarrow> True | SetNodeRef i \<Rightarrow> 2 \<le> i)"

section \<open>Families of sets and diagrams as trees\<close>

text \<open>
  The meaning of a vertex is a family of sets of indices.  A vertex is unfolded into a
  tree: a leaf for a terminal (\<open>Leaf True\<close> is \<open>BASE\<close>, the family \<open>{{}}\<close>;
  \<open>Leaf False\<close> is \<open>EMPTY\<close>, the family \<open>{}\<close>), and for a set node its index
  with the trees of the high and of the low branch.
\<close>

datatype ztree = Leaf bool | Nd int ztree ztree

primrec family :: "ztree \<Rightarrow> int set set" where
  "family (Leaf b) = (if b then {{}} else {})"
| "family (Nd x h l) = family l \<union> insert x ` family h"

primrec indices :: "ztree \<Rightarrow> int set" where
  "indices (Leaf b) = {}"
| "indices (Nd x h l) = insert x (indices h \<union> indices l)"

primrec height :: "ztree \<Rightarrow> nat" where
  "height (Leaf b) = 0"
| "height (Nd x h l) = Suc (max (height h) (height l))"

text \<open>
  The sets of \<open>F\<close> that include no set of \<open>G\<close>, the minimal sets of a family, and
  families without two comparable sets.
\<close>

definition without :: "int set set \<Rightarrow> int set set \<Rightarrow> int set set" where
  "without F G = {S \<in> F. \<forall>T \<in> G. \<not> T \<subseteq> S}"

definition minimal_sets :: "int set set \<Rightarrow> int set set" where
  "minimal_sets F = {S \<in> F. \<forall>T \<in> F. \<not> T \<subset> S}"

definition antichain :: "int set set \<Rightarrow> bool" where
  "antichain F = (\<forall>S \<in> F. \<forall>T \<in> F. T \<subseteq> S \<longrightarrow> T = S)"

text \<open>
  The ordering of the diagram for an order \<open>w\<close> of the indices (\<open>order nd = w (index nd)\<close>):
  the high branch starts at a larger order, the low branch at a larger order or at the
  same order with a smaller index (the complement of the variable).  The high branch of
  a node of an ordered tree is not \<open>EMPTY\<close>.
\<close>

definition below_high :: "(int \<Rightarrow> int) \<Rightarrow> int \<Rightarrow> int \<Rightarrow> bool" where
  "below_high w x y = (w x < w y)"

definition below_low :: "(int \<Rightarrow> int) \<Rightarrow> int \<Rightarrow> int \<Rightarrow> bool" where
  "below_low w x y = (w x < w y \<or> (w x = w y \<and> y < x))"

primrec ordered :: "(int \<Rightarrow> int) \<Rightarrow> ztree \<Rightarrow> bool" where
  "ordered w (Leaf b) = True"
| "ordered w (Nd x h l) =
     (h \<noteq> Leaf False \<and>
      (case h of Leaf b \<Rightarrow> True | Nd y hh hl \<Rightarrow> below_high w x y) \<and>
      (case l of Leaf b \<Rightarrow> True | Nd y lh ll \<Rightarrow> below_low w x y) \<and>
      ordered w h \<and> ordered w l)"

section \<open>The invariant of the engine\<close>

text \<open>
  \<open>rep s v t\<close>: the vertex \<open>v\<close> unfolds in the heap of \<open>s\<close> into the tree \<open>t\<close>.
  \<open>fully_min s v\<close>: \<open>v\<close> is a terminal or a node flagged minimal.
\<close>

fun rep :: "Zbdd \<Rightarrow> vertex \<Rightarrow> ztree \<Rightarrow> bool" where
  "rep s (Terminal b) (Leaf c) = (b = c)"
| "rep s (SetNodeRef i) (Nd x thi tlo) =
     (case nodes s i of
        None \<Rightarrow> False
      | Some nd \<Rightarrow> index nd = x \<and> rep s (high nd) thi \<and> rep s (low nd) tlo)"
| "rep s (Terminal b) (Nd x thi tlo) = False"
| "rep s (SetNodeRef i) (Leaf c) = False"

definition fully_min :: "Zbdd \<Rightarrow> vertex \<Rightarrow> bool" where
  "fully_min s v =
     (case v of
        Terminal b \<Rightarrow> True
      | SetNodeRef i \<Rightarrow> (case nodes s i of None \<Rightarrow> False | Some nd \<Rightarrow> minimal nd))"

text \<open>
  \<open>ext s s'\<close>: the state \<open>s'\<close> comes from \<open>s\<close> by allocating nodes and setting
  minimal flags; the nodes of \<open>s\<close> keep their index, order, branches and module flag.
\<close>

definition ext :: "Zbdd \<Rightarrow> Zbdd \<Rightarrow> bool" where
  "ext s s' =
     (set_id s \<le> set_id s' \<and> limit_order s' = limit_order s \<and> modules s' = modules s \<and>
      root s' = root s \<and>
      (\<forall>i nd. nodes s i = Some nd \<longrightarrow>
         (\<exists>nd'. nodes s' i = Some nd' \<and> index nd' = index nd \<and> order nd' = order nd \<and>
                high nd' = high nd \<and> low nd' = low nd \<and> module nd' = module nd \<and>
                (minimal nd \<longrightarrow> minimal nd'))))"

text \<open>
  The invariant of a node: its id was given out by the counter, its order is the order
  of its index, its branches differ, it unfolds into an ordered tree, and, when it is
  flagged minimal, its branches are flagged minimal and its family is an antichain.
  The invariant of the unique table: an entry leads to a node with the key's index and
  branch ids.
\<close>

definition node_inv :: "(int \<Rightarrow> int) \<Rightarrow> Zbdd \<Rightarrow> nat \<Rightarrow> SetNode \<Rightarrow> bool" where
  "node_inv w s i nd =
     (2 \<le> i \<and> i < set_id s \<and> order nd = w (index nd) \<and> high nd \<noteq> low nd \<and>
      (\<exists>t. rep s (SetNodeRef i) t \<and> ordered w t) \<and>
      (minimal nd \<longrightarrow>
         fully_min s (high nd) \<and> fully_min s (low nd) \<and>
         (\<forall>t. rep s (SetNodeRef i) t \<longrightarrow> antichain (family t))))"

definition unique_inv :: "Zbdd \<Rightarrow> bool" where
  "unique_inv s =
     (\<forall>x a b n. unique_table s (x, a, b) = Some n \<longrightarrow>
        (\<exists>nd. nodes s n = Some nd \<and> index nd = x \<and>
              vertex_id (high nd) = a \<and> vertex_id (low nd) = b))"

text \<open>
  The memo tables hold results that meet the postconditions of \<^verbatim>\<open>Subsume\<close> and of
  \<^verbatim>\<open>Minimize\<close>.
\<close>

definition sub_post :: "Zbdd \<Rightarrow> vertex \<Rightarrow> vertex \<Rightarrow> vertex \<Rightarrow> bool" where
  "sub_post s h l r =
     (fully_min s r \<and>
      (\<forall>thi tlo. rep s h thi \<longrightarrow> rep s l tlo \<longrightarrow>
         (\<exists>tr. rep s r tr \<and> family tr = without (family thi) (family tlo) \<and>
               indices tr \<subseteq> indices thi \<and> height tr \<le> height thi)))"

definition min_post :: "Zbdd \<Rightarrow> vertex \<Rightarrow> vertex \<Rightarrow> bool" where
  "min_post s v r =
     (fully_min s r \<and>
      (\<forall>t. rep s v t \<longrightarrow>
         (\<exists>tr. rep s r tr \<and> family tr = minimal_sets (family t) \<and>
               indices tr \<subseteq> indices t \<and> height tr \<le> height t)))"

definition subsume_inv :: "Zbdd \<Rightarrow> bool" where
  "subsume_inv s =
     (\<forall>hi li r. subsume_table s (hi, li) = Some r \<longrightarrow>
        hi \<in> dom (nodes s) \<and> li \<in> dom (nodes s) \<and>
        sub_post s (SetNodeRef hi) (SetNodeRef li) r)"

definition minimal_inv :: "Zbdd \<Rightarrow> bool" where
  "minimal_inv s =
     (\<forall>i r. minimal_results s i = Some r \<longrightarrow>
        i \<in> dom (nodes s) \<and> min_post s (SetNodeRef i) r)"

definition zbdd_inv :: "(int \<Rightarrow> int) \<Rightarrow> Zbdd \<Rightarrow> bool" where
  "zbdd_inv w s =
     (2 \<le> set_id s \<and> (\<forall>i nd. nodes s i = Some nd \<longrightarrow> node_inv w s i nd) \<and>
      unique_inv s \<and> subsume_inv s \<and> minimal_inv s)"

text \<open>
  The specification of \<^verbatim>\<open>Subsume\<close> with a bound \<open>N\<close>: from a state that satisfies
  the invariant, for a \<open>high\<close> flagged minimal and a \<open>low\<close> whose family is an
  antichain, the call returns, keeps the invariant, extends the state, and its result
  meets the postcondition.
\<close>

definition sub_ok :: "(int \<Rightarrow> int) \<Rightarrow> Zbdd \<Rightarrow> vertex \<Rightarrow> vertex \<Rightarrow> vertex \<Rightarrow> Zbdd \<Rightarrow> bool" where
  "sub_ok w s h l r s' = (zbdd_inv w s' \<and> ext s s' \<and> sub_post s' h l r)"

definition sub_spec ::
  "(int \<Rightarrow> int) \<Rightarrow> nat \<Rightarrow> (vertex \<Rightarrow> vertex \<Rightarrow> Zbdd \<Rightarrow> (vertex \<times> Zbdd) option) \<Rightarrow> bool" where
  "sub_spec w N sub =
     (\<forall>s h l thi tlo. zbdd_inv w s \<longrightarrow> rep s h thi \<longrightarrow> rep s l tlo \<longrightarrow> fully_min s h \<longrightarrow>
        antichain (family tlo) \<longrightarrow> height thi + height tlo < N \<longrightarrow>
        (\<exists>r s'. sub h l s = Some (r, s') \<and> sub_ok w s h l r s'))"

text \<open>
  The specification of \<^verbatim>\<open>Minimize\<close> with a bound \<open>N\<close>.
\<close>

definition min_spec ::
  "(int \<Rightarrow> int) \<Rightarrow> nat \<Rightarrow> (vertex \<Rightarrow> Zbdd \<Rightarrow> (vertex \<times> Zbdd) option) \<Rightarrow> bool" where
  "min_spec w N mi =
     (\<forall>s v t. zbdd_inv w s \<longrightarrow> rep s v t \<longrightarrow> 2 * height t < N \<longrightarrow>
        (\<exists>r s'. mi v s = Some (r, s') \<and> zbdd_inv w s' \<and> ext s s' \<and> min_post s' v r))"

section \<open>The tests of TestStructure\<close>

text \<open>
  \<^verbatim>\<open>Zbdd::TestStructure\<close> asserts for a set node: the high branch is not \<open>EMPTY\<close>, the
  ids of the branches differ, the order of a branch is not smaller than the order of
  the node (with a smaller index at the same order), and the branches of a node flagged
  minimal are flagged minimal.  \<open>reach s v\<close>: the traversal from the root and from the
  entries of the module table reaches \<open>v\<close>.
\<close>

definition edge_ordered :: "Zbdd \<Rightarrow> SetNode \<Rightarrow> vertex \<Rightarrow> bool" where
  "edge_ordered s parent child =
     (case child of
        Terminal b \<Rightarrow> True
      | SetNodeRef j \<Rightarrow>
          (case nodes s j of
             None \<Rightarrow> False
           | Some cn \<Rightarrow> order parent < order cn \<or>
                        (order parent = order cn \<and> index parent > index cn)))"

definition structure_ok :: "Zbdd \<Rightarrow> SetNode \<Rightarrow> bool" where
  "structure_ok s nd =
     (high nd \<noteq> kEmpty \<and> vertex_id (high nd) \<noteq> vertex_id (low nd) \<and>
      edge_ordered s nd (high nd) \<and> edge_ordered s nd (low nd) \<and>
      (minimal nd \<longrightarrow> fully_min s (high nd) \<and> fully_min s (low nd)))"

inductive reach :: "Zbdd \<Rightarrow> vertex \<Rightarrow> bool" for s :: Zbdd where
  reach_root: "reach s (root s)"
| reach_module: "modules s k = Some v \<Longrightarrow> reach s v"
| reach_high: "reach s (SetNodeRef i) \<Longrightarrow> nodes s i = Some nd \<Longrightarrow> reach s (high nd)"
| reach_low: "reach s (SetNodeRef i) \<Longrightarrow> nodes s i = Some nd \<Longrightarrow> reach s (low nd)"

text \<open>
  Every entry of the module table points into the diagram, at a height covered by the
  bound \<open>n\<close>.
\<close>

definition modules_bounded :: "nat \<Rightarrow> Zbdd \<Rightarrow> bool" where
  "modules_bounded n s =
     (\<forall>k v. modules s k = Some v \<longrightarrow> (\<exists>t. rep s v t \<and> 2 * height t < n))"

section \<open>Example states\<close>

text \<open>
  States built by the operations from the initial state, as inputs of the examples.
  \<open>spine_state\<close>: node 2 is \<open>{{2}}\<close>, node 3 is \<open>{{1, 2}}\<close>, both flagged minimal.
  \<open>nonminimal_state\<close>: node 5, the root, is \<open>{{1, 2, 3}, {2}}\<close>.
  \<open>base_low_state\<close>: node 3 is \<open>{{}, {1, 2}}\<close>.
\<close>

definition spine_state :: Zbdd where
  "spine_state =
     (let (v2, s1) = FetchUniqueTable 2 kBase kEmpty 2 False (Zbdd_init 5);
          s2 = set_minimal v2 True s1;
          (v1, s3) = FetchUniqueTable 1 v2 kEmpty 1 False s2
      in set_minimal v1 True s3)"

definition nonminimal_state :: Zbdd where
  "nonminimal_state =
     (let (v3, s1) = FetchUniqueTable 3 kBase kEmpty 3 False (Zbdd_init 5);
          (v23, s2) = FetchUniqueTable 2 v3 kEmpty 2 False s1;
          (v2, s3) = FetchUniqueTable 2 kBase kEmpty 2 False s2;
          (v1, s4) = FetchUniqueTable 1 v23 v2 1 False s3
      in s4\<lparr> root := v1 \<rparr>)"

definition base_low_state :: Zbdd where
  "base_low_state =
     (let (v2, s1) = FetchUniqueTable 2 kBase kEmpty 2 False (Zbdd_init 5);
          (v1, s2) = FetchUniqueTable 1 v2 kBase 1 False s1
      in s2)"

text \<open>
  \<open>apply_state\<close>: node 2 is \<open>{{2}}\<close>, node 3 is \<open>{{3}}\<close>, node 4 is \<open>{{1, 2}}\<close>
  and node 5 is \<open>{{1, 2}, {3}}\<close>.  \<open>module_state\<close>: \<open>nonminimal_state\<close> with one
  entry in the module table.
\<close>

definition apply_state :: Zbdd where
  "apply_state =
     (let (n2, s1) = FetchUniqueTable 2 kBase kEmpty 2 False (Zbdd_init 5);
          (n3, s2) = FetchUniqueTable 3 kBase kEmpty 3 False s1;
          (a, s3) = FetchUniqueTable 1 n2 kEmpty 1 False s2;
          (b, s4) = FetchUniqueTable 1 n2 n3 1 False s3
      in s4)"

definition module_state :: Zbdd where
  "module_state = nonminimal_state\<lparr> modules := [4 \<mapsto> SetNodeRef 3] \<rparr>"

text \<open>
  Two distinct set nodes of one variable: the case in which the two swaps of
  \<^verbatim>\<open>Apply\<close> leave the arguments in the order of the call.
\<close>

definition same_variable :: "Zbdd \<Rightarrow> vertex \<Rightarrow> vertex \<Rightarrow> bool" where
  "same_variable s a b =
     (case (a, b) of
        (SetNodeRef i, SetNodeRef j) \<Rightarrow>
          (case (nodes s i, nodes s j) of
             (Some node_one, Some node_two) \<Rightarrow>
               i \<noteq> j \<and> order node_one = order node_two \<and> index node_one = index node_two
           | _ \<Rightarrow> False)
      | _ \<Rightarrow> False)"

lemma below_low_trans: "below_low w x y \<Longrightarrow> below_low w y z \<Longrightarrow> below_low w x z"
  by (auto simp: below_low_def)

lemma below_high_low: "below_high w x y \<Longrightarrow> below_low w x y"
  by (auto simp: below_low_def below_high_def)

lemma below_high_trans: "below_high w x y \<Longrightarrow> below_low w y z \<Longrightarrow> below_high w x z"
  by (auto simp: below_low_def below_high_def)

lemma case_high_low:
  "(case t of Leaf b \<Rightarrow> True | Nd y a b \<Rightarrow> below_high w x y) \<Longrightarrow>
   (case t of Leaf b \<Rightarrow> True | Nd y a b \<Rightarrow> below_low w x y)"
  by (cases t) (simp_all add: below_high_low)

lemma ordered_indices_low:
  "ordered w t \<Longrightarrow> (case t of Leaf b \<Rightarrow> True | Nd y a b \<Rightarrow> below_low w x y) \<Longrightarrow>
   y \<in> indices t \<Longrightarrow> below_low w x y"
proof (induction t arbitrary: x)
  case (Leaf b) then show ?case by simp
next
  case (Nd z h l)
  have xz: "below_low w x z" using Nd.prems(2) by simp
  have oh: "ordered w h" and ol: "ordered w l"
    and ch: "case h of Leaf b \<Rightarrow> True | Nd y a b \<Rightarrow> below_high w z y"
    and cl: "case l of Leaf b \<Rightarrow> True | Nd y a b \<Rightarrow> below_low w z y"
    using Nd.prems(1) by simp_all
  from Nd.prems(3) consider "y = z" | "y \<in> indices h" | "y \<in> indices l" by auto
  then show ?case
  proof cases
    case 1 then show ?thesis using xz by simp
  next
    case 2
    have "below_low w z y" by (rule Nd.IH(1)[OF oh case_high_low[OF ch] 2])
    then show ?thesis using xz below_low_trans by blast
  next
    case 3
    have "below_low w z y" by (rule Nd.IH(2)[OF ol cl 3])
    then show ?thesis using xz below_low_trans by blast
  qed
qed

lemma ordered_indices_high:
  "ordered w t \<Longrightarrow> (case t of Leaf b \<Rightarrow> True | Nd y a b \<Rightarrow> below_high w x y) \<Longrightarrow>
   y \<in> indices t \<Longrightarrow> below_high w x y"
proof (cases t)
  case (Leaf b)
  assume "y \<in> indices t" then show ?thesis using Leaf by simp
next
  case (Nd z h l)
  assume o: "ordered w t" and c: "case t of Leaf b \<Rightarrow> True | Nd y a b \<Rightarrow> below_high w x y"
    and y: "y \<in> indices t"
  have xz: "below_high w x z" using c Nd by simp
  have oh: "ordered w h" and ol: "ordered w l"
    and ch: "case h of Leaf b \<Rightarrow> True | Nd y a b \<Rightarrow> below_high w z y"
    and cl: "case l of Leaf b \<Rightarrow> True | Nd y a b \<Rightarrow> below_low w z y"
    using o Nd by simp_all
  from y Nd consider "y = z" | "y \<in> indices h" | "y \<in> indices l" by auto
  then show ?thesis
  proof cases
    case 1 then show ?thesis using xz by simp
  next
    case 2
    have "below_low w z y" by (rule ordered_indices_low[OF oh case_high_low[OF ch] 2])
    then show ?thesis using xz below_high_trans by blast
  next
    case 3
    have "below_low w z y" by (rule ordered_indices_low[OF ol cl 3])
    then show ?thesis using xz below_high_trans by blast
  qed
qed

lemma below_low_neq: "below_low w x y \<Longrightarrow> x \<noteq> y"
  by (auto simp: below_low_def)

lemma family_indices: "S \<in> family t \<Longrightarrow> S \<subseteq> indices t"
  by (induction t arbitrary: S) (auto split: if_splits)

lemma family_finite: "S \<in> family t \<Longrightarrow> finite S"
  by (induction t arbitrary: S) (auto split: if_splits)

lemma ordered_fresh_high:
  assumes "ordered w (Nd x h l)" "S \<in> family h" shows "x \<notin> S"
proof
  assume "x \<in> S"
  then have xi: "x \<in> indices h" using family_indices[OF assms(2)] by blast
  have oh: "ordered w h"
    and ch: "case h of Leaf b \<Rightarrow> True | Nd y a b \<Rightarrow> below_high w x y"
    using assms(1) by simp_all
  have "below_high w x x" by (rule ordered_indices_high[OF oh ch xi])
  then show False by (simp add: below_high_def)
qed

lemma ordered_fresh_low:
  assumes "ordered w (Nd x h l)" "S \<in> family l" shows "x \<notin> S"
proof
  assume "x \<in> S"
  then have xi: "x \<in> indices l" using family_indices[OF assms(2)] by blast
  have ol: "ordered w l"
    and cl: "case l of Leaf b \<Rightarrow> True | Nd y a b \<Rightarrow> below_low w x y"
    using assms(1) by simp_all
  have "below_low w x x" by (rule ordered_indices_low[OF ol cl xi])
  then show False by (simp add: below_low_def)
qed

lemma ordered_nonempty: "ordered w t \<Longrightarrow> t \<noteq> Leaf False \<Longrightarrow> family t \<noteq> {}"
  by (induction t) auto

lemma antichain_Base: "ordered w t \<Longrightarrow> antichain (family t) \<Longrightarrow> {} \<in> family t \<Longrightarrow> t = Leaf True"
proof (cases t)
  case (Leaf b) assume "{} \<in> family t" then show ?thesis using Leaf by (auto split: if_splits)
next
  case (Nd x h l)
  assume o: "ordered w t" and a: "antichain (family t)" and e: "{} \<in> family t"
  from o Nd have "family h \<noteq> {}" using ordered_nonempty[of w h] by auto
  then obtain S where "S \<in> family h" by auto
  then have "insert x S \<in> family t" using Nd by auto
  with a e have "{} = insert x S" unfolding antichain_def by blast
  then show ?thesis by simp
qed

subsection \<open>Families\<close>

lemma in_without: "S \<in> without F G \<longleftrightarrow> S \<in> F \<and> (\<forall>T \<in> G. \<not> T \<subseteq> S)"
  by (simp add: without_def)

lemma in_minimal_sets: "S \<in> minimal_sets F \<longleftrightarrow> S \<in> F \<and> (\<forall>T \<in> F. \<not> T \<subset> S)"
  by (simp add: minimal_sets_def)

lemma without_subset: "without F G \<subseteq> F"
  by (rule subsetI) (simp add: in_without)

lemma without_empty: "without F {} = F"
  by (rule set_eqI) (simp add: in_without)

lemma without_Base: "without F {{}} = {}"
  by (rule set_eqI) (simp add: in_without)

lemma antichain_subset: "antichain F \<Longrightarrow> G \<subseteq> F \<Longrightarrow> antichain G"
  unfolding antichain_def by blast

lemma minimal_sets_subset: "minimal_sets F \<subseteq> F"
  by (rule subsetI) (simp add: in_minimal_sets)

lemma antichain_minimal_sets: "antichain (minimal_sets F)"
  unfolding antichain_def minimal_sets_def by blast

lemma minimal_sets_antichain: assumes "antichain F" shows "minimal_sets F = F"
proof (rule set_eqI)
  fix S
  have "S \<in> F \<Longrightarrow> \<forall>T \<in> F. \<not> T \<subset> S" using assms unfolding antichain_def by blast
  then show "S \<in> minimal_sets F \<longleftrightarrow> S \<in> F" by (auto simp: in_minimal_sets)
qed

lemma minimal_below:
  assumes "finite T" "T \<in> L" shows "\<exists>T0 \<in> minimal_sets L. T0 \<subseteq> T"
  using assms
proof (induction T rule: finite_psubset_induct)
  case (psubset A)
  show ?case
  proof (cases "A \<in> minimal_sets L")
    case True then show ?thesis by blast
  next
    case False
    then obtain B where B: "B \<in> L" "B \<subset> A" using psubset.prems by (auto simp: in_minimal_sets)
    from psubset.IH[OF B(2) B(1)] obtain T0 where "T0 \<in> minimal_sets L" "T0 \<subseteq> B" by blast
    then show ?thesis using B(2) by blast
  qed
qed

lemma without_Un: "without F (G1 \<union> G2) = without (without F G1) G2"
  by (rule set_eqI) (simp add: in_without ball_Un)

lemma without_commute: "without (without F A) B = without (without F B) A"
  by (rule set_eqI) (auto simp: in_without)

lemma psubset_insert_fresh:
  assumes "x \<notin> T" "x \<notin> S" "T \<subset> S" shows "insert x T \<subset> insert x S"
proof -
  have "insert x T \<subseteq> insert x S" using assms(3) by blast
  moreover have "T \<noteq> S" using assms(3) by blast
  then have "insert x T \<noteq> insert x S" using assms(1,2) by (simp add: insert_ident)
  ultimately show ?thesis by blast
qed

lemma without_skip:
  assumes "\<forall>S \<in> F. y \<notin> S"
  shows "without F (L0 \<union> insert y ` L1) = without F L0"
proof (rule set_eqI)
  fix S
  show "S \<in> without F (L0 \<union> insert y ` L1) \<longleftrightarrow> S \<in> without F L0"
  proof (cases "S \<in> F")
    case False then show ?thesis by (simp add: in_without)
  next
    case True
    then have y: "y \<notin> S" using assms by blast
    then show ?thesis by (simp add: in_without ball_Un)
  qed
qed

lemma ball_subset_insert_fresh:
  assumes "\<forall>S \<in> G. x \<notin> S"
  shows "(\<forall>T \<in> G. \<not> T \<subseteq> insert x S') = (\<forall>T \<in> G. \<not> T \<subseteq> S')"
proof (rule ball_cong[OF refl])
  fix T assume "T \<in> G"
  then have "x \<notin> T" using assms by simp
  then show "(\<not> T \<subseteq> insert x S') = (\<not> T \<subseteq> S')" by (simp add: subset_insert)
qed

lemma ball_insert_subset_fresh:
  assumes "\<forall>S \<in> G. x \<notin> S" "x \<notin> S'"
  shows "(\<forall>T \<in> G. \<not> insert x T \<subseteq> insert x S') = (\<forall>T \<in> G. \<not> T \<subseteq> S')"
proof (rule ball_cong[OF refl])
  fix T assume "T \<in> G"
  then have "x \<notin> T" using assms by simp
  then show "(\<not> insert x T \<subseteq> insert x S') = (\<not> T \<subseteq> S')" by (simp add: subset_insert)
qed

lemma in_image_without:
  "S \<in> insert x ` without H G \<longleftrightarrow> (\<exists>S' \<in> H. S = insert x S' \<and> (\<forall>T \<in> G. \<not> T \<subseteq> S'))"
  by (simp add: image_iff in_without Bex_def conj_commute conj_left_commute)

lemma in_image_withoutI:
  "S' \<in> H \<Longrightarrow> \<forall>T \<in> G. \<not> T \<subseteq> S' \<Longrightarrow> insert x S' \<in> insert x ` without H G"
  by (rule imageI) (simp add: in_without)

lemma without_high_only:
  assumes "\<forall>S \<in> H0. x \<notin> S" "\<forall>S \<in> G. x \<notin> S"
  shows "without (H0 \<union> insert x ` H1) G = without H0 G \<union> insert x ` without H1 G"
proof (rule set_eqI)
  fix S
  have "S \<in> insert x ` H1 \<and> (\<forall>T \<in> G. \<not> T \<subseteq> S) \<longleftrightarrow> S \<in> insert x ` without H1 G"
  proof
    assume l: "S \<in> insert x ` H1 \<and> (\<forall>T \<in> G. \<not> T \<subseteq> S)"
    then obtain S' where S': "S' \<in> H1" "S = insert x S'" by (auto simp: image_iff)
    have nS': "\<forall>T \<in> G. \<not> T \<subseteq> S'"
      using l S'(2) ball_subset_insert_fresh[OF assms(2), of S'] by simp
    show "S \<in> insert x ` without H1 G" unfolding S'(2) by (rule in_image_withoutI[OF S'(1) nS'])
  next
    assume "S \<in> insert x ` without H1 G"
    then obtain S' where S': "S' \<in> H1" "S = insert x S'" "\<forall>T \<in> G. \<not> T \<subseteq> S'"
      unfolding in_image_without by (elim bexE conjE)
    have "\<forall>T \<in> G. \<not> T \<subseteq> S"
      using S'(2,3) ball_subset_insert_fresh[OF assms(2), of S'] by simp
    then show "S \<in> insert x ` H1 \<and> (\<forall>T \<in> G. \<not> T \<subseteq> S)" using S'(1,2) by simp
  qed
  then show "S \<in> without (H0 \<union> insert x ` H1) G \<longleftrightarrow> S \<in> without H0 G \<union> insert x ` without H1 G"
    by (simp add: in_without) blast
qed

lemma without_image_same:
  assumes "\<forall>S \<in> H. x \<notin> S" "\<forall>S \<in> L. x \<notin> S"
  shows "without (insert x ` H) (insert x ` L) = insert x ` without H L"
proof (rule set_eqI)
  fix S
  show "S \<in> without (insert x ` H) (insert x ` L) \<longleftrightarrow> S \<in> insert x ` without H L"
  proof
    assume l: "S \<in> without (insert x ` H) (insert x ` L)"
    then have l1: "S \<in> insert x ` H" and l2: "\<forall>T \<in> L. \<not> insert x T \<subseteq> S"
      by (simp_all add: in_without)
    from l1 obtain S' where S': "S' \<in> H" "S = insert x S'" by (auto simp: image_iff)
    have xs: "x \<notin> S'" using S'(1) assms(1) by simp
    have nS': "\<forall>T \<in> L. \<not> T \<subseteq> S'"
      using l2 S'(2) ball_insert_subset_fresh[OF assms(2) xs] by simp
    show "S \<in> insert x ` without H L" unfolding S'(2) by (rule in_image_withoutI[OF S'(1) nS'])
  next
    assume "S \<in> insert x ` without H L"
    then obtain S' where S': "S' \<in> H" "S = insert x S'" "\<forall>T \<in> L. \<not> T \<subseteq> S'"
      unfolding in_image_without by (elim bexE conjE)
    have xs: "x \<notin> S'" using S'(1) assms(1) by simp
    have "\<forall>T \<in> L. \<not> insert x T \<subseteq> S"
      using S'(2,3) ball_insert_subset_fresh[OF assms(2) xs] by simp
    then show "S \<in> without (insert x ` H) (insert x ` L)" using S'(1,2) by (simp add: in_without)
  qed
qed

lemma without_fresh_image:
  assumes "\<forall>S \<in> H. x \<notin> S"
  shows "without H (insert x ` L) = H"
proof (rule set_eqI)
  fix S
  show "S \<in> without H (insert x ` L) \<longleftrightarrow> S \<in> H"
  proof (cases "S \<in> H")
    case False then show ?thesis by (simp add: in_without)
  next
    case True
    then have "x \<notin> S" using assms by simp
    then show ?thesis using True by (simp add: in_without)
  qed
qed

lemma without_Un_left: "without (A \<union> B) G = without A G \<union> without B G"
  by (rule set_eqI) (simp add: in_without conj_disj_distribR)

lemma without_same:
  assumes "\<forall>S \<in> H0. x \<notin> S" "\<forall>S \<in> H1. x \<notin> S" "\<forall>S \<in> L0. x \<notin> S" "\<forall>S \<in> L1. x \<notin> S"
  shows "without (H0 \<union> insert x ` H1) (L0 \<union> insert x ` L1) =
         without H0 L0 \<union> insert x ` without (without H1 L1) L0"
proof -
  have 1: "without (H0 \<union> insert x ` H1) (L0 \<union> insert x ` L1) =
           without (without (H0 \<union> insert x ` H1) L0) (insert x ` L1)"
    by (rule without_Un)
  have 2: "without (H0 \<union> insert x ` H1) L0 = without H0 L0 \<union> insert x ` without H1 L0"
    by (rule without_high_only[OF assms(1,3)])
  have f0: "\<forall>S \<in> without H0 L0. x \<notin> S" using assms(1) by (simp add: in_without)
  have f1: "\<forall>S \<in> without H1 L0. x \<notin> S" using assms(2) by (simp add: in_without)
  have 3: "without (without H0 L0 \<union> insert x ` without H1 L0) (insert x ` L1) =
           without H0 L0 \<union> insert x ` without (without H1 L0) L1"
    using without_Un_left[of "without H0 L0" "insert x ` without H1 L0" "insert x ` L1"]
      without_fresh_image[OF f0, of L1] without_image_same[OF f1 assms(4)]
    by simp
  have 4: "without (without H1 L0) L1 = without (without H1 L1) L0"
    by (rule without_commute)
  show ?thesis using 1 2 3 4 by simp
qed

lemma minimal_sets_node:
  assumes fh: "\<forall>S \<in> H. x \<notin> S" and fl: "\<forall>S \<in> L. x \<notin> S" and fin: "\<forall>S \<in> L. finite S"
  shows "minimal_sets (L \<union> insert x ` H) =
         minimal_sets L \<union> insert x ` without (minimal_sets H) (minimal_sets L)"
proof (rule set_eqI)
  fix S
  let ?F = "L \<union> insert x ` H"
  show "S \<in> minimal_sets ?F \<longleftrightarrow>
        S \<in> minimal_sets L \<union> insert x ` without (minimal_sets H) (minimal_sets L)"
  proof
    assume l: "S \<in> minimal_sets ?F"
    then have mL: "\<forall>T \<in> L. \<not> T \<subset> S" and mH: "\<forall>T \<in> H. \<not> insert x T \<subset> S"
      and sf: "S \<in> L \<or> S \<in> insert x ` H"
      by (simp_all add: in_minimal_sets ball_Un)
    from sf show "S \<in> minimal_sets L \<union> insert x ` without (minimal_sets H) (minimal_sets L)"
    proof
      assume "S \<in> L"
      then have "S \<in> minimal_sets L" using mL by (simp add: in_minimal_sets)
      then show ?thesis by simp
    next
      assume "S \<in> insert x ` H"
      then obtain S' where S': "S' \<in> H" "S = insert x S'" by (auto simp: image_iff)
      have xs: "x \<notin> S'" using S'(1) fh by simp
      have "\<forall>T \<in> H. \<not> T \<subset> S'"
      proof
        fix T assume T: "T \<in> H"
        then have xt: "x \<notin> T" using fh by simp
        have "\<not> insert x T \<subset> insert x S'" using mH T S'(2) by simp
        then show "\<not> T \<subset> S'" using psubset_insert_fresh[OF xt xs] by (rule contrapos_nn)
      qed
      then have mh: "S' \<in> minimal_sets H" using S'(1) by (simp add: in_minimal_sets)
      have "\<forall>T \<in> minimal_sets L. \<not> T \<subseteq> S'"
      proof
        fix T assume "T \<in> minimal_sets L"
        then have T: "T \<in> L" by (simp add: in_minimal_sets)
        then have xt: "x \<notin> T" using fl by simp
        have n: "\<not> T \<subset> insert x S'" using mL T S'(2) by simp
        show "\<not> T \<subseteq> S'"
        proof
          assume "T \<subseteq> S'"
          then have "T \<subseteq> insert x S'" "T \<noteq> insert x S'" using xt by auto
          then show False using n by (simp add: psubset_eq)
        qed
      qed
      then have "S \<in> insert x ` without (minimal_sets H) (minimal_sets L)"
        unfolding S'(2) by (rule in_image_withoutI[OF mh])
      then show ?thesis by simp
    qed
  next
    assume "S \<in> minimal_sets L \<union> insert x ` without (minimal_sets H) (minimal_sets L)"
    then have "S \<in> minimal_sets L \<or> S \<in> insert x ` without (minimal_sets H) (minimal_sets L)"
      by simp
    then show "S \<in> minimal_sets ?F"
    proof
      assume a: "S \<in> minimal_sets L"
      then have sl: "S \<in> L" and ml: "\<forall>T \<in> L. \<not> T \<subset> S" by (simp_all add: in_minimal_sets)
      have xs: "x \<notin> S" using sl fl by simp
      have "\<forall>T \<in> H. \<not> insert x T \<subset> S"
      proof
        fix T show "\<not> insert x T \<subset> S" using xs by (auto simp: psubset_eq)
      qed
      then show ?thesis using sl ml by (simp add: in_minimal_sets ball_Un)
    next
      assume "S \<in> insert x ` without (minimal_sets H) (minimal_sets L)"
      then obtain S' where S': "S' \<in> minimal_sets H" "S = insert x S'"
        "\<forall>T \<in> minimal_sets L. \<not> T \<subseteq> S'"
        unfolding in_image_without by (elim bexE conjE)
      then have sh: "S' \<in> H" and mh: "\<forall>T \<in> H. \<not> T \<subset> S'"
        by (simp_all add: in_minimal_sets)
      have xs: "x \<notin> S'" using sh fh by simp
      have 1: "\<forall>T \<in> L. \<not> T \<subset> S"
      proof
        fix T assume T: "T \<in> L"
        then have "finite T" using fin by simp
        from minimal_below[OF this T] obtain T0 where T0: "T0 \<in> minimal_sets L" "T0 \<subseteq> T"
          by (elim bexE)
        have xt: "x \<notin> T" using T fl by simp
        show "\<not> T \<subset> S"
        proof
          assume "T \<subset> S"
          then have "T \<subseteq> insert x S'" using S'(2) by (simp add: psubset_eq)
          then have "T \<subseteq> S'" using xt by (simp add: subset_insert)
          then have "T0 \<subseteq> S'" using T0(2) by (rule subset_trans[rotated])
          then show False using S'(3) T0(1) by simp
        qed
      qed
      have 2: "\<forall>T \<in> H. \<not> insert x T \<subset> S"
      proof
        fix T assume T: "T \<in> H"
        then have xt: "x \<notin> T" using fh by simp
        show "\<not> insert x T \<subset> S"
        proof
          assume "insert x T \<subset> S"
          then have "insert x T \<subseteq> insert x S'" "insert x T \<noteq> insert x S'"
            using S'(2) by (simp_all add: psubset_eq)
          then have "T \<subseteq> S'" "T \<noteq> S'" using xt xs by (auto simp: subset_insert)
          then have "T \<subset> S'" by (simp add: psubset_eq)
          then show False using mh T by simp
        qed
      qed
      have "S \<in> L \<or> S \<in> insert x ` H" using sh S'(2) by simp
      then show ?thesis using 1 2 by (simp add: in_minimal_sets ball_Un)
    qed
  qed
qed

lemma antichain_node:
  assumes "antichain (L \<union> insert x ` H)" "\<forall>S \<in> H. x \<notin> S"
  shows "antichain L" "antichain H"
proof -
  show "antichain L" using assms(1) unfolding antichain_def by blast
  show "antichain H"
    unfolding antichain_def
  proof (intro ballI impI)
    fix S T assume a: "S \<in> H" "T \<in> H" "T \<subseteq> S"
    then have "insert x T \<subseteq> insert x S" by blast
    moreover have "insert x S \<in> L \<union> insert x ` H" "insert x T \<in> L \<union> insert x ` H"
      using a by blast+
    ultimately have "insert x T = insert x S" using assms(1) unfolding antichain_def by blast
    moreover have "x \<notin> S" "x \<notin> T" using a assms(2) by blast+
    ultimately show "T = S" by (simp add: insert_ident)
  qed
qed

lemma antichain_Leaf: "antichain (family (Leaf b))"
  by (simp add: antichain_def)

subsection \<open>Families of ordered trees\<close>

lemma ordered_fresh:
  assumes "ordered w (Nd x h l)"
  shows "\<forall>S \<in> family h. x \<notin> S" "\<forall>S \<in> family l. x \<notin> S"
  using ordered_fresh_high[OF assms] ordered_fresh_low[OF assms] by blast+

lemma not_index_below:
  assumes "ordered w t" "case t of Leaf b \<Rightarrow> True | Nd z a b \<Rightarrow> below_low w y z"
  shows "y \<notin> indices t"
proof
  assume "y \<in> indices t"
  from ordered_indices_low[OF assms this] show False by (simp add: below_low_def)
qed

lemma not_in_family_below:
  assumes "ordered w t" "case t of Leaf b \<Rightarrow> True | Nd z a b \<Rightarrow> below_low w y z"
  shows "\<forall>S \<in> family t. y \<notin> S"
  using not_index_below[OF assms] family_indices by blast

lemma antichain_children:
  assumes "ordered w (Nd x h l)" "antichain (family (Nd x h l))"
  shows "antichain (family h)" "antichain (family l)"
  using antichain_node[of "family l" x "family h"] assms(2) ordered_fresh(1)[OF assms(1)]
  by simp_all

lemma family_finite_all: "\<forall>S \<in> family t. finite S"
  using family_finite by blast

lemma minimal_sets_tree:
  assumes "ordered w (Nd x h l)"
  shows "minimal_sets (family (Nd x h l)) =
         minimal_sets (family l) \<union>
         insert x ` without (minimal_sets (family h)) (minimal_sets (family l))"
  using minimal_sets_node[OF ordered_fresh[OF assms] family_finite_all] by simp

lemma height_children: "height h < height (Nd x h l)" "height l < height (Nd x h l)"
  by simp_all

subsection \<open>The representation relation\<close>

lemma rep_Terminal_iff: "rep s (Terminal b) t \<longleftrightarrow> t = Leaf b"
  by (cases t) auto

lemma rep_SetNodeRef_iff:
  "rep s (SetNodeRef i) t \<longleftrightarrow>
   (\<exists>nd thi tlo. nodes s i = Some nd \<and> t = Nd (index nd) thi tlo \<and>
      rep s (high nd) thi \<and> rep s (low nd) tlo)"
  by (cases t) (auto split: option.splits)

lemma rep_fun: "rep s v t \<Longrightarrow> rep s v t' \<Longrightarrow> t = t'"
proof (induction t arbitrary: v t')
  case (Leaf b)
  then show ?case by (cases v; cases t') auto
next
  case (Nd x thi tlo)
  from Nd.prems(1) obtain i where v: "v = SetNodeRef i" by (cases v) auto
  from Nd.prems(1) v obtain nd where nd: "nodes s i = Some nd" "index nd = x"
    "rep s (high nd) thi" "rep s (low nd) tlo" by (auto split: option.splits)
  from Nd.prems(2) v nd(1) obtain thi' tlo' where t': "t' = Nd (index nd) thi' tlo'"
    "rep s (high nd) thi'" "rep s (low nd) tlo'"
    by (auto simp: rep_SetNodeRef_iff)
  have "thi = thi'" by (rule Nd.IH(1)[OF nd(3) t'(2)])
  moreover have "tlo = tlo'" by (rule Nd.IH(2)[OF nd(4) t'(3)])
  ultimately show ?case using t'(1) nd(2) by simp
qed

lemma ext_refl: "ext s s"
  by (simp add: ext_def)

lemma ext_trans: "ext s s1 \<Longrightarrow> ext s1 s2 \<Longrightarrow> ext s s2"
  unfolding ext_def
  apply (intro conjI)
      apply simp
     apply simp
    apply simp
   apply simp
  apply (intro allI impI)
  apply (elim conjE)
  apply (erule_tac x=i in allE)
  apply (erule_tac x=nd in allE)
  apply (erule impE, assumption)
  apply (elim exE conjE)
  apply (erule_tac x=i in allE)
  apply (erule_tac x=nd' in allE)
  apply (erule impE, assumption)
  apply (elim exE conjE)
  apply (rule_tac x=nd'a in exI)
  apply simp
  done

lemma rep_ext: "ext s s' \<Longrightarrow> rep s v t \<Longrightarrow> rep s' v t"
proof (induction t arbitrary: v)
  case (Leaf b)
  then show ?case by (cases v) auto
next
  case (Nd x thi tlo)
  from Nd.prems(2) obtain i where v: "v = SetNodeRef i" by (cases v) auto
  from Nd.prems(2) v obtain nd where nd: "nodes s i = Some nd" "index nd = x"
    "rep s (high nd) thi" "rep s (low nd) tlo" by (auto split: option.splits)
  from Nd.prems(1) nd(1) obtain nd' where nd': "nodes s' i = Some nd'" "index nd' = index nd"
    "high nd' = high nd" "low nd' = low nd" unfolding ext_def by blast
  have "rep s' (high nd) thi" by (rule Nd.IH(1)[OF Nd.prems(1) nd(3)])
  moreover have "rep s' (low nd) tlo" by (rule Nd.IH(2)[OF Nd.prems(1) nd(4)])
  ultimately show ?case using v nd' nd(2) by simp
qed

lemma fully_min_ext: assumes "ext s s'" "fully_min s v" shows "fully_min s' v"
proof (cases v)
  case (Terminal b)
  then show ?thesis by (simp add: fully_min_def)
next
  case (SetNodeRef i)
  with assms(2) obtain nd where nd: "nodes s i = Some nd" "minimal nd"
    by (auto simp: fully_min_def split: option.splits)
  from assms(1) nd obtain nd' where "nodes s' i = Some nd'" "minimal nd'"
    unfolding ext_def by blast
  then show ?thesis using SetNodeRef by (simp add: fully_min_def)
qed

lemma inv_node: "zbdd_inv w s \<Longrightarrow> nodes s i = Some nd \<Longrightarrow> node_inv w s i nd"
  by (simp add: zbdd_inv_def)

lemma inv_ordered: assumes "zbdd_inv w s" "rep s v t" shows "ordered w t"
proof (cases v)
  case (Terminal b)
  then show ?thesis using assms(2) by (simp add: rep_Terminal_iff)
next
  case (SetNodeRef i)
  then obtain nd where nd: "nodes s i = Some nd" using assms(2)
    by (auto simp: rep_SetNodeRef_iff)
  from inv_node[OF assms(1) nd] obtain t' where "rep s (SetNodeRef i) t'" "ordered w t'"
    unfolding node_inv_def by blast
  then show ?thesis using rep_fun[of s v t t'] assms(2) SetNodeRef by simp
qed

lemma inv_has_rep: "zbdd_inv w s \<Longrightarrow> nodes s i = Some nd \<Longrightarrow> \<exists>t. rep s (SetNodeRef i) t"
  using inv_node[of w s i nd] unfolding node_inv_def by blast

lemma rep_ext_back:
  assumes "zbdd_inv w s" "ext s s'" "rep s' v t" "\<And>i. v = SetNodeRef i \<Longrightarrow> i \<in> dom (nodes s)"
  shows "rep s v t"
proof (cases v)
  case (Terminal b)
  then show ?thesis using assms(3) by (simp add: rep_Terminal_iff)
next
  case (SetNodeRef i)
  from assms(4)[OF SetNodeRef] obtain nd where "nodes s i = Some nd" by (auto simp: dom_def)
  from inv_has_rep[OF assms(1) this] obtain t' where t': "rep s (SetNodeRef i) t'" by blast
  have "rep s' (SetNodeRef i) t'" by (rule rep_ext[OF assms(2) t'])
  then have "t' = t" using rep_fun[of s' v t' t] assms(3) SetNodeRef by simp
  then show ?thesis using t' SetNodeRef by simp
qed

lemma rep_ext_back_node:
  assumes "zbdd_inv w s" "ext s s'" "rep s' (SetNodeRef i) t" "i \<in> dom (nodes s)"
  shows "rep s (SetNodeRef i) t"
  by (rule rep_ext_back[OF assms(1,2,3)]) (use assms(4) in simp)

lemma rep_valid_id: "zbdd_inv w s \<Longrightarrow> rep s v t \<Longrightarrow> valid_id v"
  unfolding valid_id_def
  by (cases v) (auto simp: rep_SetNodeRef_iff dest!: inv_node simp: node_inv_def)

lemma vertex_id_inj: "valid_id v \<Longrightarrow> valid_id v' \<Longrightarrow> vertex_id v = vertex_id v' \<Longrightarrow> v = v'"
  unfolding valid_id_def by (cases v; cases v') (auto split: if_splits)

lemma high_low_rep:
  assumes "rep s (SetNodeRef i) (Nd x thi tlo)" "nodes s i = Some nd"
  shows "index nd = x" "rep s (high nd) thi" "rep s (low nd) tlo"
  using assms by auto

subsection \<open>Stability under extension\<close>

lemma dom_valid: "zbdd_inv w s \<Longrightarrow> rep s (SetNodeRef i) t \<Longrightarrow> i \<in> dom (nodes s)"
  by (auto simp: rep_SetNodeRef_iff)

lemma old_node_inv:
  assumes inv: "zbdd_inv w s" and e: "ext s s'"
    and nd: "nodes s i = Some nd" and nd': "nodes s' i = Some nd'"
    and flag: "minimal nd' \<longrightarrow> minimal nd"
  shows "node_inv w s' i nd'"
proof -
  have ni: "node_inv w s i nd" by (rule inv_node[OF inv nd])
  from e nd nd' have same: "index nd' = index nd" "order nd' = order nd" "high nd' = high nd"
    "low nd' = low nd" and le: "set_id s \<le> set_id s'"
    unfolding ext_def by fastforce+
  from ni obtain t where t: "rep s (SetNodeRef i) t" "ordered w t" unfolding node_inv_def by blast
  have r': "rep s' (SetNodeRef i) t" by (rule rep_ext[OF e t(1)])
  have a: "minimal nd' \<longrightarrow> (\<forall>t. rep s' (SetNodeRef i) t \<longrightarrow> antichain (family t))"
  proof (intro impI allI)
    fix t' assume m: "minimal nd'" and rt: "rep s' (SetNodeRef i) t'"
    have "t' = t" by (rule rep_fun[OF rt r'])
    moreover have "antichain (family t)" using ni flag m t(1) unfolding node_inv_def by blast
    ultimately show "antichain (family t')" by simp
  qed
  have f: "minimal nd' \<longrightarrow> fully_min s' (high nd') \<and> fully_min s' (low nd')"
    using ni flag same fully_min_ext[OF e] unfolding node_inv_def by auto
  show ?thesis unfolding node_inv_def
    using ni same le r' t(2) a f unfolding node_inv_def by auto
qed

lemma sub_post_ext:
  assumes inv: "zbdd_inv w s" and e: "ext s s'" and p: "sub_post s (SetNodeRef hi) (SetNodeRef li) r"
    and d: "hi \<in> dom (nodes s)" "li \<in> dom (nodes s)"
  shows "sub_post s' (SetNodeRef hi) (SetNodeRef li) r"
  unfolding sub_post_def
proof (intro conjI allI impI)
  show "fully_min s' r" using p fully_min_ext[OF e] unfolding sub_post_def by blast
next
  fix thi tlo assume a: "rep s' (SetNodeRef hi) thi" "rep s' (SetNodeRef li) tlo"
  have "rep s (SetNodeRef hi) thi" by (rule rep_ext_back_node[OF inv e a(1) d(1)])
  moreover have "rep s (SetNodeRef li) tlo" by (rule rep_ext_back_node[OF inv e a(2) d(2)])
  ultimately obtain tr where "rep s r tr" "family tr = without (family thi) (family tlo)"
    "indices tr \<subseteq> indices thi" "height tr \<le> height thi"
    using p unfolding sub_post_def by blast
  then show "\<exists>tr. rep s' r tr \<and> family tr = without (family thi) (family tlo) \<and>
               indices tr \<subseteq> indices thi \<and> height tr \<le> height thi"
    using rep_ext[OF e] by blast
qed

lemma min_post_ext:
  assumes inv: "zbdd_inv w s" and e: "ext s s'" and p: "min_post s (SetNodeRef i) r"
    and d: "i \<in> dom (nodes s)"
  shows "min_post s' (SetNodeRef i) r"
  unfolding min_post_def
proof (intro conjI allI impI)
  show "fully_min s' r" using p fully_min_ext[OF e] unfolding min_post_def by blast
next
  fix t assume a: "rep s' (SetNodeRef i) t"
  have "rep s (SetNodeRef i) t" by (rule rep_ext_back_node[OF inv e a d])
  then obtain tr where "rep s r tr" "family tr = minimal_sets (family t)"
    "indices tr \<subseteq> indices t" "height tr \<le> height t"
    using p unfolding min_post_def by blast
  then show "\<exists>tr. rep s' r tr \<and> family tr = minimal_sets (family t) \<and>
               indices tr \<subseteq> indices t \<and> height tr \<le> height t"
    using rep_ext[OF e] by blast
qed

lemma dom_ext: "ext s s' \<Longrightarrow> i \<in> dom (nodes s) \<Longrightarrow> i \<in> dom (nodes s')"
  unfolding ext_def by (fastforce simp: dom_def)

lemma subsume_inv_ext:
  assumes "zbdd_inv w s" "ext s s'" "subsume_table s' = subsume_table s"
  shows "subsume_inv s'"
  unfolding subsume_inv_def
proof (intro allI impI)
  fix hi li r assume "subsume_table s' (hi, li) = Some r"
  then have "subsume_table s (hi, li) = Some r" using assms(3) by simp
  then have d: "hi \<in> dom (nodes s)" "li \<in> dom (nodes s)"
    and p: "sub_post s (SetNodeRef hi) (SetNodeRef li) r"
    using assms(1) unfolding zbdd_inv_def subsume_inv_def by blast+
  show "hi \<in> dom (nodes s') \<and> li \<in> dom (nodes s') \<and> sub_post s' (SetNodeRef hi) (SetNodeRef li) r"
    using dom_ext[OF assms(2)] d sub_post_ext[OF assms(1,2) p d] by blast
qed

lemma minimal_inv_ext:
  assumes "zbdd_inv w s" "ext s s'" "minimal_results s' = minimal_results s"
  shows "minimal_inv s'"
  unfolding minimal_inv_def
proof (intro allI impI)
  fix i r assume "minimal_results s' i = Some r"
  then have "minimal_results s i = Some r" using assms(3) by simp
  then have d: "i \<in> dom (nodes s)" and p: "min_post s (SetNodeRef i) r"
    using assms(1) unfolding zbdd_inv_def minimal_inv_def by blast+
  show "i \<in> dom (nodes s') \<and> min_post s' (SetNodeRef i) r"
    using dom_ext[OF assms(2)] d min_post_ext[OF assms(1,2) p d] by blast
qed

lemma unique_inv_ext:
  assumes "zbdd_inv w s" "ext s s'" "unique_table s' = unique_table s"
  shows "unique_inv s'"
  unfolding unique_inv_def
proof (intro allI impI)
  fix x a b n assume "unique_table s' (x, a, b) = Some n"
  then have "unique_table s (x, a, b) = Some n" using assms(3) by simp
  then obtain nd where nd: "nodes s n = Some nd" "index nd = x" "vertex_id (high nd) = a"
    "vertex_id (low nd) = b"
    using assms(1) unfolding zbdd_inv_def unique_inv_def by blast
  from assms(2) nd(1) obtain nd' where "nodes s' n = Some nd'" "index nd' = index nd"
    "high nd' = high nd" "low nd' = low nd" unfolding ext_def by blast
  then show "\<exists>nd. nodes s' n = Some nd \<and> index nd = x \<and> vertex_id (high nd) = a \<and>
               vertex_id (low nd) = b" using nd by simp
qed

subsection \<open>FetchUniqueTable keeps the invariant\<close>

lemma Fetch_correct:
  assumes inv: "zbdd_inv w s" and h: "rep s h thi" and l: "rep s l tlo" and ne: "h \<noteq> l"
    and ord: "ord = w x" and o: "ordered w (Nd x thi tlo)"
    and f: "FetchUniqueTable x h l ord m s = (r, s')"
  shows "zbdd_inv w s' \<and> ext s s' \<and> rep s' r (Nd x thi tlo) \<and>
         (\<exists>i nd. r = SetNodeRef i \<and> nodes s' i = Some nd \<and> high nd = h \<and> low nd = l)"
proof (cases "unique_table s (x, vertex_id h, vertex_id l)")
  case (Some n)
  then have rs: "r = SetNodeRef n" "s' = s" using f by (simp_all add: FetchUniqueTable_def)
  from Some inv obtain nd where nd: "nodes s n = Some nd" "index nd = x"
    "vertex_id (high nd) = vertex_id h" "vertex_id (low nd) = vertex_id l"
    unfolding zbdd_inv_def unique_inv_def by blast
  from inv_has_rep[OF inv nd(1)] obtain t where t: "rep s (SetNodeRef n) t" by blast
  then obtain t1 t2 where "rep s (high nd) t1" "rep s (low nd) t2"
    using nd(1) by (auto simp: rep_SetNodeRef_iff)
  then have "valid_id (high nd)" "valid_id (low nd)" using rep_valid_id[OF inv] by blast+
  moreover have "valid_id h" "valid_id l" using rep_valid_id[OF inv] h l by blast+
  ultimately have eq: "high nd = h" "low nd = l" using vertex_id_inj nd(3,4) by blast+
  have "rep s (SetNodeRef n) (Nd x thi tlo)" using nd(1,2) eq h l by simp
  then show ?thesis using rs inv ext_refl nd(1) eq by auto
next
  case None
  define n where "n = set_id s"
  define new where "new = \<lparr> index = x, order = ord, high = h, low = l, module = m,
                    minimal = False, mark = False, node_cut_sets = [] \<rparr>"
  have rs: "r = SetNodeRef n"
    "s' = s\<lparr> nodes := (nodes s)(n \<mapsto> new),
            unique_table := (unique_table s)((x, vertex_id h, vertex_id l) \<mapsto> n),
            set_id := Suc n \<rparr>"
    using f None by (simp_all add: FetchUniqueTable_def n_def new_def)
  have fresh: "nodes s n = None"
  proof (cases "nodes s n")
    case (Some nd)
    from inv_node[OF inv Some] have "n < set_id s" unfolding node_inv_def by simp
    then show ?thesis using n_def by simp
  qed simp
  have n2: "2 \<le> n" using inv n_def unfolding zbdd_inv_def by simp
  have e: "ext s s'" unfolding ext_def using rs(2) fresh n_def by auto
  have rh: "rep s' h thi" by (rule rep_ext[OF e h])
  have rl: "rep s' l tlo" by (rule rep_ext[OF e l])
  have nn: "nodes s' n = Some new" using rs(2) by simp
  have rn: "rep s' (SetNodeRef n) (Nd x thi tlo)" using nn rh rl by (simp add: new_def)
  have "\<exists>t. rep s' (SetNodeRef n) t \<and> ordered w t" using rn o by blast
  then have new_inv: "node_inv w s' n new"
    using n2 rs(2) ord ne by (simp add: node_inv_def new_def)
  have nodes_inv: "\<forall>i nd. nodes s' i = Some nd \<longrightarrow> node_inv w s' i nd"
  proof (intro allI impI)
    fix i nd assume a: "nodes s' i = Some nd"
    show "node_inv w s' i nd"
    proof (cases "i = n")
      case True then show ?thesis using a nn new_inv by simp
    next
      case False
      then have "nodes s i = Some nd" using a rs(2) by simp
      then show ?thesis using old_node_inv[OF inv e _ a] by simp
    qed
  qed
  have u: "unique_inv s'"
    unfolding unique_inv_def
  proof (intro allI impI)
    fix y a b k assume k: "unique_table s' (y, a, b) = Some k"
    show "\<exists>nd. nodes s' k = Some nd \<and> index nd = y \<and> vertex_id (high nd) = a \<and>
               vertex_id (low nd) = b"
    proof (cases "(y, a, b) = (x, vertex_id h, vertex_id l)")
      case True
      then have "k = n" using k rs(2) by simp
      then show ?thesis using nn True by (simp add: new_def)
    next
      case False
      then have "unique_table s (y, a, b) = Some k" using k rs(2) by (auto split: if_splits)
      then obtain nd where nd: "nodes s k = Some nd" "index nd = y" "vertex_id (high nd) = a"
        "vertex_id (low nd) = b"
        using inv unfolding zbdd_inv_def unique_inv_def by blast
      then have "k \<noteq> n" using fresh by auto
      then have "nodes s' k = Some nd" using nd(1) rs(2) by simp
      then show ?thesis using nd by simp
    qed
  qed
  have st: "subsume_inv s'" by (rule subsume_inv_ext[OF inv e]) (simp add: rs(2))
  have mt: "minimal_inv s'" by (rule minimal_inv_ext[OF inv e]) (simp add: rs(2))
  have "2 \<le> set_id s'" using rs(2) n2 by simp
  then have "zbdd_inv w s'" unfolding zbdd_inv_def using nodes_inv u st mt by simp
  then show ?thesis using e rn rs(1) nn by (simp add: new_def)
qed

subsection \<open>Setting the minimal flag\<close>

lemma set_minimal_correct:
  assumes inv: "zbdd_inv w s" and nd: "nodes s i = Some nd"
    and t: "rep s (SetNodeRef i) t" and a: "antichain (family t)"
    and fh: "fully_min s (high nd)" and fl: "fully_min s (low nd)"
    and s': "s' = set_minimal (SetNodeRef i) True s"
  shows "zbdd_inv w s' \<and> ext s s' \<and> fully_min s' (SetNodeRef i)"
proof -
  have s'_eq: "s' = s\<lparr> nodes := (nodes s)(i \<mapsto> nd\<lparr> minimal := True \<rparr>) \<rparr>"
    using s' nd by (simp add: set_minimal_def)
  have e: "ext s s'" unfolding ext_def using s'_eq nd by auto
  have ni': "nodes s' i = Some (nd\<lparr> minimal := True \<rparr>)" using s'_eq by simp
  have fm: "fully_min s' (SetNodeRef i)" using ni' by (simp add: fully_min_def)
  have r': "rep s' (SetNodeRef i) t" by (rule rep_ext[OF e t])
  have node_i: "node_inv w s' i (nd\<lparr> minimal := True \<rparr>)"
  proof -
    have ni: "node_inv w s i nd" by (rule inv_node[OF inv nd])
    have "\<forall>t'. rep s' (SetNodeRef i) t' \<longrightarrow> antichain (family t')"
      using rep_fun[OF _ r'] a by blast
    moreover have "fully_min s' (high nd)" "fully_min s' (low nd)"
      using fh fl fully_min_ext[OF e] by blast+
    moreover have "\<exists>t. rep s' (SetNodeRef i) t \<and> ordered w t"
      using r' inv_ordered[OF inv t] by blast
    moreover have "set_id s' = set_id s" using s'_eq by simp
    ultimately show ?thesis using ni unfolding node_inv_def by simp
  qed
  have nodes_inv: "\<forall>j ndj. nodes s' j = Some ndj \<longrightarrow> node_inv w s' j ndj"
  proof (intro allI impI)
    fix j ndj assume aj: "nodes s' j = Some ndj"
    show "node_inv w s' j ndj"
    proof (cases "j = i")
      case True then show ?thesis using aj ni' node_i by simp
    next
      case False
      then have "nodes s j = Some ndj" using aj s'_eq by simp
      then show ?thesis using old_node_inv[OF inv e _ aj] by simp
    qed
  qed
  have u: "unique_inv s'" by (rule unique_inv_ext[OF inv e]) (simp add: s'_eq)
  have st: "subsume_inv s'" by (rule subsume_inv_ext[OF inv e]) (simp add: s'_eq)
  have mt: "minimal_inv s'" by (rule minimal_inv_ext[OF inv e]) (simp add: s'_eq)
  have "2 \<le> set_id s'" using inv s'_eq unfolding zbdd_inv_def by simp
  then have "zbdd_inv w s'" unfolding zbdd_inv_def using nodes_inv u st mt by simp
  then show ?thesis using e fm by simp
qed

subsection \<open>Storing into the memo tables\<close>

lemma same_nodes_ext:
  "nodes s' = nodes s \<Longrightarrow> set_id s' = set_id s \<Longrightarrow> limit_order s' = limit_order s \<Longrightarrow>
   modules s' = modules s \<Longrightarrow> root s' = root s \<Longrightarrow> ext s s'"
  by (simp add: ext_def)

lemma same_nodes_rep: assumes "nodes s' = nodes s" shows "rep s' v t = rep s v t"
proof (induction t arbitrary: v)
  case (Leaf b) show ?case by (cases v) simp_all
next
  case (Nd x a b) show ?case by (cases v) (simp_all add: assms Nd.IH split: option.splits)
qed

lemma same_nodes_fully_min: "nodes s' = nodes s \<Longrightarrow> fully_min s' v = fully_min s v"
  by (cases v) (simp_all add: fully_min_def)

lemma same_nodes_inv:
  assumes inv: "zbdd_inv w s" and n: "nodes s' = nodes s" "set_id s' = set_id s"
    "unique_table s' = unique_table s"
    and st: "subsume_inv s'" and mt: "minimal_inv s'"
  shows "zbdd_inv w s'"
proof -
  have rep_eq: "\<And>v t. rep s' v t = rep s v t" by (rule same_nodes_rep[OF n(1)])
  have "\<And>v. fully_min s' v = fully_min s v" by (rule same_nodes_fully_min[OF n(1)])
  then have "\<And>i nd. node_inv w s' i nd = node_inv w s i nd"
    unfolding node_inv_def using rep_eq n(2) by simp
  moreover have "unique_inv s' = unique_inv s" unfolding unique_inv_def using n by simp
  ultimately show ?thesis using inv st mt n unfolding zbdd_inv_def by simp
qed

lemma store_subsume_correct:
  assumes inv: "zbdd_inv w s" and d: "hi \<in> dom (nodes s)" "li \<in> dom (nodes s)"
    and p: "sub_post s (SetNodeRef hi) (SetNodeRef li) r"
    and s': "s' = s\<lparr> subsume_table := (subsume_table s)((hi, li) \<mapsto> r) \<rparr>"
  shows "zbdd_inv w s' \<and> ext s s'"
proof -
  have n: "nodes s' = nodes s" using s' by simp
  have post: "\<And>a b c. sub_post s' a b c = sub_post s a b c"
    unfolding sub_post_def using same_nodes_rep[OF n] same_nodes_fully_min[OF n] by simp
  have st: "subsume_inv s'"
    unfolding subsume_inv_def
  proof (intro allI impI)
    fix a b c assume k: "subsume_table s' (a, b) = Some c"
    show "a \<in> dom (nodes s') \<and> b \<in> dom (nodes s') \<and> sub_post s' (SetNodeRef a) (SetNodeRef b) c"
    proof (cases "(a, b) = (hi, li)")
      case True
      then have "c = r" using k s' by simp
      then show ?thesis using True d p post n by simp
    next
      case False
      then have "subsume_table s (a, b) = Some c" using k s' by (auto split: if_splits)
      then show ?thesis using inv post n unfolding zbdd_inv_def subsume_inv_def by simp
    qed
  qed
  have mp: "\<And>a c. min_post s' a c = min_post s a c"
    unfolding min_post_def using same_nodes_rep[OF n] same_nodes_fully_min[OF n] by simp
  have mt: "minimal_inv s'"
    using inv mp n s' unfolding zbdd_inv_def minimal_inv_def by simp
  have "zbdd_inv w s'" by (rule same_nodes_inv[OF inv _ _ _ st mt]) (simp_all add: s')
  moreover have "ext s s'" by (rule same_nodes_ext) (simp_all add: s')
  ultimately show ?thesis by simp
qed

lemma store_minimal_correct:
  assumes inv: "zbdd_inv w s" and d: "i \<in> dom (nodes s)"
    and p: "min_post s (SetNodeRef i) r"
    and s': "s' = s\<lparr> minimal_results := (minimal_results s)(i \<mapsto> r) \<rparr>"
  shows "zbdd_inv w s' \<and> ext s s'"
proof -
  have n: "nodes s' = nodes s" using s' by simp
  have mp: "\<And>a c. min_post s' a c = min_post s a c"
    unfolding min_post_def using same_nodes_rep[OF n] same_nodes_fully_min[OF n] by simp
  have mt: "minimal_inv s'"
    unfolding minimal_inv_def
  proof (intro allI impI)
    fix a c assume k: "minimal_results s' a = Some c"
    show "a \<in> dom (nodes s') \<and> min_post s' (SetNodeRef a) c"
    proof (cases "a = i")
      case True
      then have "c = r" using k s' by simp
      then show ?thesis using True d p mp n by simp
    next
      case False
      then have "minimal_results s a = Some c" using k s' by (auto split: if_splits)
      then show ?thesis using inv mp n unfolding zbdd_inv_def minimal_inv_def by simp
    qed
  qed
  have post: "\<And>a b c. sub_post s' a b c = sub_post s a b c"
    unfolding sub_post_def using same_nodes_rep[OF n] same_nodes_fully_min[OF n] by simp
  have st: "subsume_inv s'"
    using inv post n s' unfolding zbdd_inv_def subsume_inv_def by simp
  have "zbdd_inv w s'" by (rule same_nodes_inv[OF inv _ _ _ st mt]) (simp_all add: s')
  moreover have "ext s s'" by (rule same_nodes_ext) (simp_all add: s')
  ultimately show ?thesis by simp
qed

lemma rep_Leaf: "rep s v (Leaf b) \<Longrightarrow> v = Terminal b"
  by (cases v) auto

lemma fully_min_antichain:
  assumes "zbdd_inv w s" "rep s v t" "fully_min s v" shows "antichain (family t)"
proof (cases v)
  case (Terminal b)
  then have "t = Leaf b" using assms(2) by (simp add: rep_Terminal_iff)
  then show ?thesis using antichain_Leaf[of b] by simp
next
  case (SetNodeRef i)
  then obtain nd where nd: "nodes s i = Some nd" "minimal nd"
    using assms(3) by (auto simp: fully_min_def split: option.splits)
  from inv_node[OF assms(1) nd(1)] nd(2) assms(2) SetNodeRef show ?thesis
    unfolding node_inv_def by blast
qed

lemma fully_min_children:
  assumes "zbdd_inv w s" "nodes s i = Some nd" "fully_min s (SetNodeRef i)"
  shows "fully_min s (high nd)" "fully_min s (low nd)"
  using inv_node[OF assms(1,2)] assms(2,3) unfolding node_inv_def fully_min_def by auto

lemma sub_postI:
  assumes "rep s h thi" "rep s l tlo" "fully_min s r" "rep s r tr"
    "family tr = without (family thi) (family tlo)" "indices tr \<subseteq> indices thi"
    "height tr \<le> height thi"
  shows "sub_post s h l r"
  unfolding sub_post_def
proof (intro conjI allI impI)
  show "fully_min s r" by (rule assms(3))
next
  fix th' tl' assume a: "rep s h th'" "rep s l tl'"
  have "th' = thi" by (rule rep_fun[OF a(1) assms(1)])
  moreover have "tl' = tlo" by (rule rep_fun[OF a(2) assms(2)])
  ultimately show "\<exists>tr. rep s r tr \<and> family tr = without (family th') (family tl') \<and>
                     indices tr \<subseteq> indices th' \<and> height tr \<le> height th'"
    using assms(4-7) by blast
qed

lemma sub_spec_use:
  assumes "sub_spec w N sub" "zbdd_inv w s" "rep s h thi" "rep s l tlo" "fully_min s h"
    "antichain (family tlo)" "height thi + height tlo < N"
  obtains r s' tr where "sub h l s = Some (r, s')" "zbdd_inv w s'" "ext s s'" "fully_min s' r"
    "rep s' r tr" "family tr = without (family thi) (family tlo)" "indices tr \<subseteq> indices thi"
    "height tr \<le> height thi"
proof -
  from assms obtain r s' where rs: "sub h l s = Some (r, s')" "sub_ok w s h l r s'"
    unfolding sub_spec_def by blast
  then have i: "zbdd_inv w s'" and e: "ext s s'" and p: "sub_post s' h l r"
    by (simp_all add: sub_ok_def)
  have "rep s' h thi" "rep s' l tlo" using rep_ext[OF e] assms(3,4) by blast+
  then obtain tr where "rep s' r tr" "family tr = without (family thi) (family tlo)"
    "indices tr \<subseteq> indices thi" "height tr \<le> height thi"
    using p unfolding sub_post_def by blast
  moreover have "fully_min s' r" using p by (simp add: sub_post_def)
  ultimately show ?thesis using that rs(1) i e by blast
qed

lemma Subsume_result_correct:
  assumes inv: "zbdd_inv w s" and hn: "nodes s hi = Some hn"
    and rh: "rep s (SetNodeRef hi) (Nd x hh hl)" and fmh: "fully_min s (SetNodeRef hi)"
    and r1: "rep s sh t1" and r2: "rep s sl t2" and fm1: "fully_min s sh" and fm2: "fully_min s sl"
    and f1: "family t1 \<subseteq> family hh" and f2: "family t2 \<subseteq> family hl"
    and i1: "indices t1 \<subseteq> indices hh" and i2: "indices t2 \<subseteq> indices hl"
    and h1: "height t1 \<le> height hh" and h2: "height t2 \<le> height hl"
  shows "\<exists>r s' tr. Subsume_result hi hn sh sl s = Some (r, s') \<and> zbdd_inv w s' \<and> ext s s' \<and>
           fully_min s' r \<and> rep s' r tr \<and> family tr = family t2 \<union> insert x ` family t1 \<and>
           indices tr \<subseteq> indices (Nd x hh hl) \<and> height tr \<le> height (Nd x hh hl)"
proof (cases "sh = kEmpty")
  case True
  then have "t1 = Leaf False" using r1 by (simp add: rep_Terminal_iff)
  then have "family t2 \<union> insert x ` family t1 = family t2" by simp
  moreover have "Subsume_result hi hn sh sl s = Some (sl, s)" using True by (simp add: Subsume_result_def)
  moreover have "indices t2 \<subseteq> indices (Nd x hh hl)" using i2 by auto
  moreover have "height t2 \<le> height (Nd x hh hl)" using h2 by simp
  ultimately show ?thesis using inv ext_refl fm2 r2 by blast
next
  case False
  have x: "index hn = x" and rhh: "rep s (high hn) hh" and rhl: "rep s (low hn) hl"
    using high_low_rep[OF rh hn] by simp_all
  have oh: "ordered w (Nd x hh hl)" by (rule inv_ordered[OF inv rh])
  have ah: "antichain (family (Nd x hh hl))" by (rule fully_min_antichain[OF inv rh fmh])
  have ordx: "order hn = w x" using inv_node[OF inv hn] x by (simp add: node_inv_def)
  have t1ne: "t1 \<noteq> Leaf False"
  proof
    assume "t1 = Leaf False"
    then have "sh = kEmpty" using r1 rep_Leaf by blast
    then show False using False by simp
  qed
  have o1: "ordered w t1" by (rule inv_ordered[OF inv r1])
  have o2: "ordered w t2" by (rule inv_ordered[OF inv r2])
  have ohh: "ordered w hh" and ohl: "ordered w hl"
    and chh: "case hh of Leaf b \<Rightarrow> True | Nd z a b \<Rightarrow> below_high w x z"
    and chl: "case hl of Leaf b \<Rightarrow> True | Nd z a b \<Rightarrow> below_low w x z"
    using oh by simp_all
  have c1: "case t1 of Leaf b \<Rightarrow> True | Nd z a b \<Rightarrow> below_high w x z"
  proof (cases t1)
    case (Nd z a b)
    then have "z \<in> indices hh" using i1 by auto
    from ordered_indices_high[OF ohh chh this] show ?thesis using Nd by simp
  qed simp
  have c2: "case t2 of Leaf b \<Rightarrow> True | Nd z a b \<Rightarrow> below_low w x z"
  proof (cases t2)
    case (Nd z a b)
    then have "z \<in> indices hl" using i2 by auto
    from ordered_indices_low[OF ohl chl this] show ?thesis using Nd by simp
  qed simp
  have on: "ordered w (Nd x t1 t2)" using t1ne c1 c2 o1 o2 by simp
  have ne: "sh \<noteq> sl"
  proof
    assume "sh = sl"
    then have "t1 = t2" using rep_fun[OF r1] r2 by simp
    moreover obtain S where S: "S \<in> family t1" using ordered_nonempty[OF o1 t1ne] by blast
    ultimately have "S \<in> family hh" "S \<in> family hl" using f1 f2 by blast+
    then have "insert x S \<in> family (Nd x hh hl)" "S \<in> family (Nd x hh hl)" by simp_all
    moreover have "S \<subseteq> insert x S" by blast
    ultimately have "S = insert x S" using ah unfolding antichain_def by blast
    moreover have "x \<notin> S" using ordered_fresh(1)[OF oh] \<open>S \<in> family hh\<close> by simp
    ultimately show False by blast
  qed
  obtain nh s1 where f: "FetchUniqueTable (index hn) sh sl (order hn) (module hn) s = (nh, s1)"
    by (cases "FetchUniqueTable (index hn) sh sl (order hn) (module hn) s") simp
  from Fetch_correct[OF inv r1 r2 ne _ on, of "order hn" "module hn" nh s1] f x ordx
  obtain i nd where fc: "zbdd_inv w s1" "ext s s1" "rep s1 nh (Nd x t1 t2)"
    "nh = SetNodeRef i" "nodes s1 i = Some nd" "high nd = sh" "low nd = sl"
    by auto
  have "fully_min s1 (SetNodeRef hi)" by (rule fully_min_ext[OF fc(2) fmh])
  then obtain hn' where hn': "nodes s1 hi = Some hn'" "minimal hn'"
    by (auto simp: fully_min_def split: option.splits)
  define s2 where "s2 = set_minimal (SetNodeRef i) True s1"
  have res: "Subsume_result hi hn sh sl s = Some (nh, s2)"
    using False f hn' fc(4) by (simp add: Subsume_result_def s2_def)
  have fam: "family (Nd x t1 t2) = family t2 \<union> insert x ` family t1" by simp
  have "family (Nd x t1 t2) \<subseteq> family (Nd x hh hl)" using f1 f2 by auto
  then have an: "antichain (family (Nd x t1 t2))" using antichain_subset[OF ah] by blast
  have fmc: "fully_min s1 (high nd)" "fully_min s1 (low nd)"
    using fc(6,7) fully_min_ext[OF fc(2)] fm1 fm2 by simp_all
  have rn: "rep s1 (SetNodeRef i) (Nd x t1 t2)" using fc(3,4) by simp
  from set_minimal_correct[OF fc(1) fc(5) rn an fmc s2_def]
  have sm: "zbdd_inv w s2" "ext s1 s2" "fully_min s2 (SetNodeRef i)" by simp_all
  have e: "ext s s2" by (rule ext_trans[OF fc(2) sm(2)])
  have r': "rep s2 nh (Nd x t1 t2)" using rep_ext[OF sm(2) rn] fc(4) by simp
  have ind: "indices (Nd x t1 t2) \<subseteq> indices (Nd x hh hl)" using i1 i2 by auto
  have hgt: "height (Nd x t1 t2) \<le> height (Nd x hh hl)" using h1 h2 by (auto simp: max_def)
  show ?thesis using res sm(1) e sm(3) fc(4) r' fam ind hgt by blast
qed

lemma below_cases:
  "\<not> (w x > w y \<or> (w x = w y \<and> x < y)) \<Longrightarrow> \<not> (w x = w y \<and> x = y) \<Longrightarrow> below_low w x y"
  by (auto simp: below_low_def)

lemma Subsume_SetNodes_correct:
  assumes spec: "sub_spec w N sub" and inv: "zbdd_inv w s"
    and rh: "rep s (SetNodeRef hi) thi" and rl: "rep s (SetNodeRef li) tlo"
    and fmh: "fully_min s (SetNodeRef hi)" and al: "antichain (family tlo)"
    and hb: "height thi + height tlo \<le> N"
  shows "\<exists>r s' tr. Subsume_SetNodes sub (SetNodeRef hi) (SetNodeRef li) s = Some (r, s') \<and>
           zbdd_inv w s' \<and> ext s s' \<and> fully_min s' r \<and> rep s' r tr \<and>
           family tr = without (family thi) (family tlo) \<and>
           indices tr \<subseteq> indices thi \<and> height tr \<le> height thi"
proof -
  from rh obtain hn hh hl where hn: "nodes s hi = Some hn" and thi: "thi = Nd (index hn) hh hl"
    and rhh: "rep s (high hn) hh" and rhl: "rep s (low hn) hl"
    by (auto simp: rep_SetNodeRef_iff)
  from rl obtain ln lh ll where ln: "nodes s li = Some ln" and tlo: "tlo = Nd (index ln) lh ll"
    and rlh: "rep s (high ln) lh" and rll: "rep s (low ln) ll"
    by (auto simp: rep_SetNodeRef_iff)
  define x where "x = index hn"
  define y where "y = index ln"
  have ordx: "order hn = w x" using inv_node[OF inv hn] by (simp add: node_inv_def x_def)
  have ordy: "order ln = w y" using inv_node[OF inv ln] by (simp add: node_inv_def y_def)
  have oh: "ordered w (Nd x hh hl)" using inv_ordered[OF inv rh] thi x_def by simp
  have ol: "ordered w (Nd y lh ll)" using inv_ordered[OF inv rl] tlo y_def by simp
  have all: "antichain (family ll)" and alh: "antichain (family lh)"
    using antichain_children[OF ol] al tlo y_def by simp_all
  have fh: "fully_min s (high hn)" "fully_min s (low hn)"
    using fully_min_children[OF inv hn fmh] by simp_all
  have hts: "height thi = Suc (max (height hh) (height hl))"
    "height tlo = Suc (max (height lh) (height ll))" using thi tlo by simp_all
  show ?thesis
  proof (cases "order hn > order ln \<or> (order hn = order ln \<and> index hn < index ln)")
    case True
    have "height thi + height ll < N" using hb hts by simp
    from sub_spec_use[OF spec inv rh rll fmh all this]
    obtain r s' tr where c: "sub (SetNodeRef hi) (low ln) s = Some (r, s')" "zbdd_inv w s'"
      "ext s s'" "fully_min s' r" "rep s' r tr" "family tr = without (family thi) (family ll)"
      "indices tr \<subseteq> indices thi" "height tr \<le> height thi" by blast
    have "below_low w y x" using True ordx ordy by (auto simp: below_low_def x_def y_def)
    then have "\<forall>S \<in> family (Nd x hh hl). y \<notin> S" using not_in_family_below[OF oh] by simp
    then have "without (family (Nd x hh hl)) (family ll \<union> insert y ` family lh) =
               without (family (Nd x hh hl)) (family ll)" by (rule without_skip)
    then have "family tr = without (family thi) (family tlo)"
      using c(6) thi tlo x_def y_def by simp
    moreover have "Subsume_SetNodes sub (SetNodeRef hi) (SetNodeRef li) s = Some (r, s')"
      using True hn ln c(1) by (simp add: Subsume_SetNodes_def)
    ultimately show ?thesis using c by blast
  next
    case nA: False
    show ?thesis
    proof (cases "order hn = order ln \<and> index hn = index ln")
      case True
      then have xy: "y = x" by (simp add: x_def y_def)
      have "height hh + height lh < N" using hb hts by simp
      from sub_spec_use[OF spec inv rhh rlh fh(1) alh this]
      obtain sh0 s1 t0 where c1: "sub (high hn) (high ln) s = Some (sh0, s1)" "zbdd_inv w s1"
        "ext s s1" "fully_min s1 sh0" "rep s1 sh0 t0"
        "family t0 = without (family hh) (family lh)" "indices t0 \<subseteq> indices hh"
        "height t0 \<le> height hh" by blast
      have rll1: "rep s1 (low ln) ll" by (rule rep_ext[OF c1(3) rll])
      have "height t0 + height ll < N" using hb hts c1(8) by simp
      from sub_spec_use[OF spec c1(2) c1(5) rll1 c1(4) all this]
      obtain sh s2 t1 where c2: "sub sh0 (low ln) s1 = Some (sh, s2)" "zbdd_inv w s2"
        "ext s1 s2" "fully_min s2 sh" "rep s2 sh t1"
        "family t1 = without (family t0) (family ll)" "indices t1 \<subseteq> indices t0"
        "height t1 \<le> height t0" by blast
      have e2: "ext s s2" by (rule ext_trans[OF c1(3) c2(3)])
      have rhl2: "rep s2 (low hn) hl" by (rule rep_ext[OF e2 rhl])
      have rll2: "rep s2 (low ln) ll" by (rule rep_ext[OF e2 rll])
      have fhl2: "fully_min s2 (low hn)" by (rule fully_min_ext[OF e2 fh(2)])
      have "height hl + height ll < N" using hb hts by simp
      from sub_spec_use[OF spec c2(2) rhl2 rll2 fhl2 all this]
      obtain sl s3 t2 where c3: "sub (low hn) (low ln) s2 = Some (sl, s3)" "zbdd_inv w s3"
        "ext s2 s3" "fully_min s3 sl" "rep s3 sl t2"
        "family t2 = without (family hl) (family ll)" "indices t2 \<subseteq> indices hl"
        "height t2 \<le> height hl" by blast
      have e3: "ext s s3" by (rule ext_trans[OF e2 c3(3)])
      have hn3: "\<exists>hn3. nodes s3 hi = Some hn3 \<and> index hn3 = index hn \<and> order hn3 = order hn \<and>
                   module hn3 = module hn"
        using e3 hn unfolding ext_def by blast
      have rh3: "rep s3 (SetNodeRef hi) (Nd x hh hl)" using rep_ext[OF e3 rh] thi x_def by simp
      have fmh3: "fully_min s3 (SetNodeRef hi)" by (rule fully_min_ext[OF e3 fmh])
      have r13: "rep s3 sh t1" by (rule rep_ext[OF c3(3) c2(5)])
      have fm13: "fully_min s3 sh" by (rule fully_min_ext[OF c3(3) c2(4)])
      have f1: "family t1 \<subseteq> family hh" using c2(6) c1(6) without_subset by blast
      have f2: "family t2 \<subseteq> family hl" using c3(6) without_subset by blast
      have i1: "indices t1 \<subseteq> indices hh" using c2(7) c1(7) by blast
      have h1: "height t1 \<le> height hh" using c2(8) c1(8) by simp
      from hn3 obtain hn3 where hn3: "nodes s3 hi = Some hn3" "index hn3 = index hn"
        "order hn3 = order hn" "module hn3 = module hn" by blast
      from Subsume_result_correct[OF c3(2) hn3(1) rh3 fmh3 r13 c3(5) fm13 c3(4) f1 f2 i1 c3(7) h1 c3(8)]
      obtain r s' tr where res: "Subsume_result hi hn3 sh sl s3 = Some (r, s')" "zbdd_inv w s'"
        "ext s3 s'" "fully_min s' r" "rep s' r tr"
        "family tr = family t2 \<union> insert x ` family t1"
        "indices tr \<subseteq> indices (Nd x hh hl)" "height tr \<le> height (Nd x hh hl)" by blast
      have same: "Subsume_result hi hn sh sl s3 = Subsume_result hi hn3 sh sl s3"
        using hn3 by (simp add: Subsume_result_def)
      have "without (family hl \<union> insert x ` family hh) (family ll \<union> insert x ` family lh) =
            without (family hl) (family ll) \<union>
            insert x ` without (without (family hh) (family lh)) (family ll)"
        using ordered_fresh[OF oh] ordered_fresh[OF ol[unfolded xy]]
        by (intro without_same) simp_all
      then have fam: "family tr = without (family thi) (family tlo)"
        using res(6) c2(6) c1(6) c3(6) thi tlo x_def y_def xy by simp
      have ev: "Subsume_SetNodes sub (SetNodeRef hi) (SetNodeRef li) s = Some (r, s')"
        using nA True hn ln c1(1) c2(1) c3(1) res(1) same by (simp add: Subsume_SetNodes_def)
      have "ext s s'" by (rule ext_trans[OF e3 res(3)])
      then show ?thesis using ev res thi x_def fam by auto
    next
      case nB: False
      have bl: "below_low w x y" using nA nB ordx ordy by (auto simp: below_low_def x_def y_def)
      have "height hh + height tlo < N" using hb hts by simp
      from sub_spec_use[OF spec inv rhh rl fh(1) al this]
      obtain sh s1 t1 where c1: "sub (high hn) (SetNodeRef li) s = Some (sh, s1)" "zbdd_inv w s1"
        "ext s s1" "fully_min s1 sh" "rep s1 sh t1"
        "family t1 = without (family hh) (family tlo)" "indices t1 \<subseteq> indices hh"
        "height t1 \<le> height hh" by blast
      have rhl1: "rep s1 (low hn) hl" by (rule rep_ext[OF c1(3) rhl])
      have rl1: "rep s1 (SetNodeRef li) tlo" by (rule rep_ext[OF c1(3) rl])
      have fhl1: "fully_min s1 (low hn)" by (rule fully_min_ext[OF c1(3) fh(2)])
      have "height hl + height tlo < N" using hb hts by simp
      from sub_spec_use[OF spec c1(2) rhl1 rl1 fhl1 al this]
      obtain sl s2 t2 where c2: "sub (low hn) (SetNodeRef li) s1 = Some (sl, s2)" "zbdd_inv w s2"
        "ext s1 s2" "fully_min s2 sl" "rep s2 sl t2"
        "family t2 = without (family hl) (family tlo)" "indices t2 \<subseteq> indices hl"
        "height t2 \<le> height hl" by blast
      have e2: "ext s s2" by (rule ext_trans[OF c1(3) c2(3)])
      have rh2: "rep s2 (SetNodeRef hi) (Nd x hh hl)" using rep_ext[OF e2 rh] thi x_def by simp
      have fmh2: "fully_min s2 (SetNodeRef hi)" by (rule fully_min_ext[OF e2 fmh])
      have r12: "rep s2 sh t1" by (rule rep_ext[OF c2(3) c1(5)])
      have fm12: "fully_min s2 sh" by (rule fully_min_ext[OF c2(3) c1(4)])
      have f1: "family t1 \<subseteq> family hh" using c1(6) without_subset by blast
      have f2: "family t2 \<subseteq> family hl" using c2(6) without_subset by blast
      from e2 hn obtain hn2 where hn2: "nodes s2 hi = Some hn2" "index hn2 = index hn"
        "order hn2 = order hn" "module hn2 = module hn" unfolding ext_def by blast
      from Subsume_result_correct[OF c2(2) hn2(1) rh2 fmh2 r12 c2(5) fm12 c2(4) f1 f2 c1(7) c2(7) c1(8) c2(8)]
      obtain r s' tr where res: "Subsume_result hi hn2 sh sl s2 = Some (r, s')" "zbdd_inv w s'"
        "ext s2 s'" "fully_min s' r" "rep s' r tr"
        "family tr = family t2 \<union> insert x ` family t1"
        "indices tr \<subseteq> indices (Nd x hh hl)" "height tr \<le> height (Nd x hh hl)" by blast
      have same: "Subsume_result hi hn sh sl s2 = Subsume_result hi hn2 sh sl s2"
        using hn2 by (simp add: Subsume_result_def)
      have "\<forall>S \<in> family (Nd y lh ll). x \<notin> S" using not_in_family_below[OF ol] bl by simp
      then have "\<forall>S \<in> family tlo. x \<notin> S" using tlo y_def by simp
      from without_high_only[OF ordered_fresh(2)[OF oh] this, of "family hh"]
      have fam: "family tr = without (family thi) (family tlo)"
        using res(6) c1(6) c2(6) thi x_def by simp
      have ev: "Subsume_SetNodes sub (SetNodeRef hi) (SetNodeRef li) s = Some (r, s')"
        using nA nB hn ln c1(1) c2(1) res(1) same by (auto simp: Subsume_SetNodes_def)
      have "ext s s'" by (rule ext_trans[OF e2 res(3)])
      then show ?thesis using ev res thi x_def fam by auto
    qed
  qed
qed

lemma Subsume_correct: "sub_spec w n (Subsume n)"
proof (induction n)
  case 0
  show ?case by (simp add: sub_spec_def)
next
  case (Suc n)
  show ?case
    unfolding sub_spec_def
  proof (intro allI impI)
    fix s h l thi tlo
    assume inv: "zbdd_inv w s" and rh: "rep s h thi" and rl: "rep s l tlo"
      and fmh: "fully_min s h" and al: "antichain (family tlo)"
      and hb: "height thi + height tlo < Suc n"
    show "\<exists>r s'. Subsume (Suc n) h l s = Some (r, s') \<and> sub_ok w s h l r s'"
    proof (cases l)
      case (Terminal b)
      then have tlo: "tlo = Leaf b" using rl by (simp add: rep_Terminal_iff)
      show ?thesis
      proof (cases b)
        case True
        have "sub_post s h l kEmpty"
          by (rule sub_postI[OF rh rl, of _ "Leaf False"])
             (simp_all add: fully_min_def tlo True without_Base)
        then show ?thesis using Terminal True inv ext_refl by (simp add: sub_ok_def)
      next
        case False
        have "sub_post s h l h"
          by (rule sub_postI[OF rh rl fmh rh]) (simp_all add: tlo False without_empty)
        then show ?thesis using Terminal False inv ext_refl by (simp add: sub_ok_def)
      qed
    next
      case l: (SetNodeRef li)
      have ol: "ordered w tlo" by (rule inv_ordered[OF inv rl])
      show ?thesis
      proof (cases h)
        case (Terminal b)
        then have thi: "thi = Leaf b" using rh by (simp add: rep_Terminal_iff)
        have "{} \<notin> family tlo"
        proof
          assume "{} \<in> family tlo"
          from antichain_Base[OF ol al this] have "l = kBase" using rl rep_Leaf by blast
          then show False using l by simp
        qed
        then have "without (family thi) (family tlo) = family thi"
          using thi by (cases b) (auto simp: in_without)
        then have "sub_post s h l h"
          by (intro sub_postI[OF rh rl fmh rh]) simp_all
        then show ?thesis using Terminal l inv ext_refl by (simp add: sub_ok_def)
      next
        case h: (SetNodeRef hi)
        show ?thesis
        proof (cases "subsume_table s (hi, li)")
          case (Some c)
          then have "sub_post s h l c" using inv h l unfolding zbdd_inv_def subsume_inv_def by blast
          then show ?thesis using Some h l inv ext_refl by (simp add: sub_ok_def)
        next
          case None
          have hb': "height thi + height tlo \<le> n" using hb by simp
          from Subsume_SetNodes_correct[OF Suc.IH inv rh[unfolded h] rl[unfolded l] fmh[unfolded h] al hb']
          obtain r s1 tr where c: "Subsume_SetNodes (Subsume n) (SetNodeRef hi) (SetNodeRef li) s = Some (r, s1)"
            "zbdd_inv w s1" "ext s s1" "fully_min s1 r" "rep s1 r tr"
            "family tr = without (family thi) (family tlo)" "indices tr \<subseteq> indices thi"
            "height tr \<le> height thi" by blast
          define s2 where "s2 = s1\<lparr> subsume_table := (subsume_table s1)((hi, li) \<mapsto> r) \<rparr>"
          have rh1: "rep s1 (SetNodeRef hi) thi" using rep_ext[OF c(3) rh] h by simp
          have rl1: "rep s1 (SetNodeRef li) tlo" using rep_ext[OF c(3) rl] l by simp
          have p1: "sub_post s1 (SetNodeRef hi) (SetNodeRef li) r"
            by (rule sub_postI[OF rh1 rl1 c(4) c(5) c(6) c(7) c(8)])
          have d: "hi \<in> dom (nodes s1)" "li \<in> dom (nodes s1)"
            using dom_valid[OF c(2) rh1] dom_valid[OF c(2) rl1] by simp_all
          from store_subsume_correct[OF c(2) d p1 s2_def]
          have st: "zbdd_inv w s2" "ext s1 s2" by simp_all
          have n2: "nodes s2 = nodes s1" by (simp add: s2_def)
          have "sub_post s2 h l r"
            using p1 h l unfolding sub_post_def
            by (simp add: same_nodes_rep[OF n2] same_nodes_fully_min[OF n2])
          moreover have "ext s s2" by (rule ext_trans[OF c(3) st(2)])
          moreover have "Subsume (Suc n) h l s = Some (r, s2)"
            using None h l c(1) by (simp add: s2_def)
          ultimately show ?thesis using st(1) by (simp add: sub_ok_def)
        qed
      qed
    qed
  qed
qed

lemma min_postI:
  assumes "rep s v t" "fully_min s r" "rep s r tr"
    "family tr = minimal_sets (family t)" "indices tr \<subseteq> indices t" "height tr \<le> height t"
  shows "min_post s v r"
  unfolding min_post_def
proof (intro conjI allI impI)
  show "fully_min s r" by (rule assms(2))
next
  fix t' assume a: "rep s v t'"
  have "t' = t" by (rule rep_fun[OF a assms(1)])
  then show "\<exists>tr. rep s r tr \<and> family tr = minimal_sets (family t') \<and>
                     indices tr \<subseteq> indices t' \<and> height tr \<le> height t'"
    using assms(3-6) by blast
qed

lemma min_spec_use:
  assumes "min_spec w N mi" "zbdd_inv w s" "rep s v t" "2 * height t < N"
  obtains r s' tr where "mi v s = Some (r, s')" "zbdd_inv w s'" "ext s s'" "fully_min s' r"
    "rep s' r tr" "family tr = minimal_sets (family t)" "indices tr \<subseteq> indices t"
    "height tr \<le> height t"
proof -
  from assms obtain r s' where rs: "mi v s = Some (r, s')" "zbdd_inv w s'" "ext s s'"
    "min_post s' v r" unfolding min_spec_def by blast
  have "rep s' v t" using rep_ext[OF rs(3)] assms(3) by blast
  then obtain tr where "rep s' r tr" "family tr = minimal_sets (family t)"
    "indices tr \<subseteq> indices t" "height tr \<le> height t"
    using rs(4) unfolding min_post_def by blast
  moreover have "fully_min s' r" using rs(4) by (simp add: min_post_def)
  ultimately show ?thesis using that rs(1,2,3) by blast
qed

lemma Fetch_minimal_correct:
  assumes inv: "zbdd_inv w s" and r1: "rep s sh t1" and r2: "rep s sl t2" and ne: "sh \<noteq> sl"
    and ord: "ord = w x" and on: "ordered w (Nd x t1 t2)"
    and an: "antichain (family (Nd x t1 t2))"
    and fm1: "fully_min s sh" and fm2: "fully_min s sl"
    and f: "FetchUniqueTable x sh sl ord m s = (nh, s1)"
  shows "zbdd_inv w (set_minimal nh True s1) \<and> ext s (set_minimal nh True s1) \<and>
         fully_min (set_minimal nh True s1) nh \<and> rep (set_minimal nh True s1) nh (Nd x t1 t2)"
proof -
  from Fetch_correct[OF inv r1 r2 ne ord on f]
  obtain i nd where fc: "zbdd_inv w s1" "ext s s1" "rep s1 nh (Nd x t1 t2)"
    "nh = SetNodeRef i" "nodes s1 i = Some nd" "high nd = sh" "low nd = sl"
    by auto
  have fmc: "fully_min s1 (high nd)" "fully_min s1 (low nd)"
    using fc(6,7) fully_min_ext[OF fc(2)] fm1 fm2 by simp_all
  have rn: "rep s1 (SetNodeRef i) (Nd x t1 t2)" using fc(3,4) by simp
  from set_minimal_correct[OF fc(1) fc(5) rn an fmc refl]
  have sm: "zbdd_inv w (set_minimal (SetNodeRef i) True s1)"
    "ext s1 (set_minimal (SetNodeRef i) True s1)"
    "fully_min (set_minimal (SetNodeRef i) True s1) (SetNodeRef i)" by simp_all
  have "ext s (set_minimal (SetNodeRef i) True s1)" by (rule ext_trans[OF fc(2) sm(2)])
  moreover have "rep (set_minimal (SetNodeRef i) True s1) (SetNodeRef i) (Nd x t1 t2)"
    by (rule rep_ext[OF sm(2) rn])
  ultimately show ?thesis using sm fc(4) by simp
qed

lemma Minimize_SetNode_correct:
  assumes mspec: "min_spec w N mi" and sspec: "sub_spec w N sub" and inv: "zbdd_inv w s"
    and nd: "nodes s i = Some nd" and r: "rep s (SetNodeRef i) t" and hb: "2 * height t \<le> N"
  shows "\<exists>r s' tr. Minimize_SetNode mi sub nd s = Some (r, s') \<and> zbdd_inv w s' \<and> ext s s' \<and>
           fully_min s' r \<and> rep s' r tr \<and> family tr = minimal_sets (family t) \<and>
           indices tr \<subseteq> indices t \<and> height tr \<le> height t"
proof -
  from r nd obtain hh hl where t: "t = Nd (index nd) hh hl"
    and rhh: "rep s (high nd) hh" and rhl: "rep s (low nd) hl"
    by (auto simp: rep_SetNodeRef_iff)
  define x where "x = index nd"
  have ordx: "order nd = w x" using inv_node[OF inv nd] by (simp add: node_inv_def x_def)
  have ot: "ordered w (Nd x hh hl)" using inv_ordered[OF inv r] t x_def by simp
  have ohh: "ordered w hh" and ohl: "ordered w hl"
    and chh: "case hh of Leaf b \<Rightarrow> True | Nd z a b \<Rightarrow> below_high w x z"
    and chl: "case hl of Leaf b \<Rightarrow> True | Nd z a b \<Rightarrow> below_low w x z"
    using ot by simp_all
  have ht: "height t = Suc (max (height hh) (height hl))" using t by simp
  have "2 * height hh < N" using hb ht by simp
  from min_spec_use[OF mspec inv rhh this]
  obtain h1 s1 t1 where c1: "mi (high nd) s = Some (h1, s1)" "zbdd_inv w s1" "ext s s1"
    "fully_min s1 h1" "rep s1 h1 t1" "family t1 = minimal_sets (family hh)"
    "indices t1 \<subseteq> indices hh" "height t1 \<le> height hh" by blast
  have rhl1: "rep s1 (low nd) hl" by (rule rep_ext[OF c1(3) rhl])
  have "2 * height hl < N" using hb ht by simp
  from min_spec_use[OF mspec c1(2) rhl1 this]
  obtain l1 s2 t2 where c2: "mi (low nd) s1 = Some (l1, s2)" "zbdd_inv w s2" "ext s1 s2"
    "fully_min s2 l1" "rep s2 l1 t2" "family t2 = minimal_sets (family hl)"
    "indices t2 \<subseteq> indices hl" "height t2 \<le> height hl" by blast
  have r12: "rep s2 h1 t1" by (rule rep_ext[OF c2(3) c1(5)])
  have fm12: "fully_min s2 h1" by (rule fully_min_ext[OF c2(3) c1(4)])
  have a2: "antichain (family t2)" using c2(6) antichain_minimal_sets by simp
  have "height t1 + height t2 < N" using hb ht c1(8) c2(8) by simp
  from sub_spec_use[OF sspec c2(2) r12 c2(5) fm12 a2 this]
  obtain h2 s3 t3 where c3: "sub h1 l1 s2 = Some (h2, s3)" "zbdd_inv w s3" "ext s2 s3"
    "fully_min s3 h2" "rep s3 h2 t3" "family t3 = without (family t1) (family t2)"
    "indices t3 \<subseteq> indices t1" "height t3 \<le> height t1" by blast
  have e3: "ext s s3" by (rule ext_trans[OF ext_trans[OF c1(3) c2(3)] c3(3)])
  have rl3: "rep s3 l1 t2" by (rule rep_ext[OF c3(3) c2(5)])
  have fml3: "fully_min s3 l1" by (rule fully_min_ext[OF c3(3) c2(4)])
  have mt: "minimal_sets (family t) = family t2 \<union> insert x ` family t3"
    using minimal_sets_tree[OF ot] c1(6) c2(6) c3(6) t x_def by simp
  have i3: "indices t3 \<subseteq> indices hh" using c3(7) c1(7) by blast
  have h3: "height t3 \<le> height hh" using c3(8) c1(8) by simp
  show ?thesis
  proof (cases "h2 = kEmpty")
    case True
    then have "t3 = Leaf False" using c3(5) by (simp add: rep_Terminal_iff)
    then have "family t2 = minimal_sets (family t)" using mt by simp
    moreover have "Minimize_SetNode mi sub nd s = Some (l1, s3)"
      using c1(1) c2(1) c3(1) True by (simp add: Minimize_SetNode_def)
    moreover have "indices t2 \<subseteq> indices t" using c2(7) t by auto
    moreover have "height t2 \<le> height t" using c2(8) ht by simp
    ultimately show ?thesis using c3(2) e3 fml3 rl3 by blast
  next
    case False
    have t3ne: "t3 \<noteq> Leaf False"
    proof
      assume "t3 = Leaf False"
      then have "h2 = kEmpty" using c3(5) rep_Leaf by blast
      then show False using False by simp
    qed
    have o3: "ordered w t3" by (rule inv_ordered[OF c3(2) c3(5)])
    have o2: "ordered w t2" by (rule inv_ordered[OF c3(2) rl3])
    have k3: "case t3 of Leaf b \<Rightarrow> True | Nd z a b \<Rightarrow> below_high w x z"
    proof (cases t3)
      case (Nd z a b)
      then have "z \<in> indices hh" using i3 by auto
      from ordered_indices_high[OF ohh chh this] show ?thesis using Nd by simp
    qed simp
    have k2: "case t2 of Leaf b \<Rightarrow> True | Nd z a b \<Rightarrow> below_low w x z"
    proof (cases t2)
      case (Nd z a b)
      then have "z \<in> indices hl" using c2(7) by auto
      from ordered_indices_low[OF ohl chl this] show ?thesis using Nd by simp
    qed simp
    have on: "ordered w (Nd x t3 t2)" using t3ne k3 k2 o3 o2 by simp
    have ne: "h2 \<noteq> l1"
    proof
      assume "h2 = l1"
      then have eq: "t3 = t2" using rep_fun[OF c3(5)] rl3 by simp
      obtain S where S: "S \<in> family t3" using ordered_nonempty[OF o3 t3ne] by blast
      then have "S \<in> family t2" using eq by simp
      moreover have "\<forall>T \<in> family t2. \<not> T \<subseteq> S" using S c3(6) by (simp add: in_without)
      ultimately show False by blast
    qed
    have an: "antichain (family (Nd x t3 t2))"
      using antichain_minimal_sets[of "family t"] mt by simp
    obtain res s4 where f: "FetchUniqueTable (index nd) h2 l1 (order nd) (module nd) s3 = (res, s4)"
      by (cases "FetchUniqueTable (index nd) h2 l1 (order nd) (module nd) s3") simp
    define s5 where "s5 = set_minimal res True s4"
    from Fetch_minimal_correct[OF c3(2) c3(5) rl3 ne _ on an c3(4) fml3, of "order nd" "module nd" res s4]
      f ordx x_def
    have fm: "zbdd_inv w s5" "ext s3 s5" "fully_min s5 res" "rep s5 res (Nd x t3 t2)"
      by (simp_all add: s5_def)
    have ev: "Minimize_SetNode mi sub nd s = Some (res, s5)"
      using c1(1) c2(1) c3(1) False f by (simp add: Minimize_SetNode_def s5_def)
    have fam: "family (Nd x t3 t2) = minimal_sets (family t)" using mt by simp
    have ind: "indices (Nd x t3 t2) \<subseteq> indices t" using i3 c2(7) t x_def by auto
    have hgt: "height (Nd x t3 t2) \<le> height t" using h3 c2(8) ht by (auto simp: max_def)
    have "ext s s5" by (rule ext_trans[OF e3 fm(2)])
    then show ?thesis using ev fm(1,3,4) fam ind hgt by blast
  qed
qed

lemma Minimize_correct: "min_spec w n (Minimize n)"
proof (induction n)
  case 0
  show ?case by (simp add: min_spec_def)
next
  case (Suc n)
  show ?case
    unfolding min_spec_def
  proof (intro allI impI)
    fix s v t
    assume inv: "zbdd_inv w s" and r: "rep s v t" and hb: "2 * height t < Suc n"
    show "\<exists>r s'. Minimize (Suc n) v s = Some (r, s') \<and> zbdd_inv w s' \<and> ext s s' \<and> min_post s' v r"
    proof (cases v)
      case (Terminal b)
      then have t: "t = Leaf b" using r by (simp add: rep_Terminal_iff)
      have "family t = minimal_sets (family t)"
        using minimal_sets_antichain[OF antichain_Leaf[of b]] t by simp
      then have "min_post s v v"
        by (intro min_postI[OF r _ r]) (simp_all add: Terminal fully_min_def)
      then show ?thesis using Terminal inv ext_refl by simp
    next
      case v: (SetNodeRef i)
      then obtain nd where nd: "nodes s i = Some nd" using r by (auto simp: rep_SetNodeRef_iff)
      show ?thesis
      proof (cases "minimal nd")
        case True
        then have fm: "fully_min s v" using nd v by (simp add: fully_min_def)
        have "family t = minimal_sets (family t)"
          using minimal_sets_antichain[OF fully_min_antichain[OF inv r fm]] by simp
        then have "min_post s v v" by (intro min_postI[OF r fm r]) simp_all
        then show ?thesis using v nd True inv ext_refl by simp
      next
        case nm: False
        show ?thesis
        proof (cases "minimal_results s i")
          case (Some c)
          then have "min_post s v c" using inv v unfolding zbdd_inv_def minimal_inv_def by blast
          then show ?thesis using Some v nd nm inv ext_refl by simp
        next
          case None
          have hb': "2 * height t \<le> n" using hb by simp
          from Minimize_SetNode_correct[OF Suc.IH Subsume_correct inv nd r[unfolded v] hb']
          obtain res s1 tr where c: "Minimize_SetNode (Minimize n) (Subsume n) nd s = Some (res, s1)"
            "zbdd_inv w s1" "ext s s1" "fully_min s1 res" "rep s1 res tr"
            "family tr = minimal_sets (family t)" "indices tr \<subseteq> indices t"
            "height tr \<le> height t" by blast
          define s2 where "s2 = s1\<lparr> minimal_results := (minimal_results s1)(i \<mapsto> res) \<rparr>"
          have r1: "rep s1 (SetNodeRef i) t" using rep_ext[OF c(3) r] v by simp
          have p1: "min_post s1 (SetNodeRef i) res"
            by (rule min_postI[OF r1 c(4) c(5) c(6) c(7) c(8)])
          have d: "i \<in> dom (nodes s1)" using dom_valid[OF c(2) r1] by simp
          from store_minimal_correct[OF c(2) d p1 s2_def]
          have st: "zbdd_inv w s2" "ext s1 s2" by simp_all
          have n2: "nodes s2 = nodes s1" by (simp add: s2_def)
          have "min_post s2 v res"
            using p1 v unfolding min_post_def
            by (simp add: same_nodes_rep[OF n2] same_nodes_fully_min[OF n2])
          moreover have "ext s s2" by (rule ext_trans[OF c(3) st(2)])
          moreover have "Minimize (Suc n) v s = Some (res, s2)"
            using None v nd nm c(1) by (simp add: s2_def)
          ultimately show ?thesis using st(1) by simp
        qed
      qed
    qed
  qed
qed

lemma Minimize_fixed:
  assumes "fully_min s r" shows "Minimize (Suc m) r s = Some (r, s)"
proof (cases r)
  case (Terminal b) then show ?thesis by simp
next
  case (SetNodeRef i)
  then obtain nd where "nodes s i = Some nd" "minimal nd"
    using assms by (auto simp: fully_min_def split: option.splits)
  then show ?thesis using SetNodeRef by simp
qed

lemma zbdd_inv_init: "zbdd_inv w (Zbdd_init lim)"
  by (simp add: zbdd_inv_def unique_inv_def subsume_inv_def minimal_inv_def Zbdd_init_def)

lemma zbdd_inv_modules: assumes "zbdd_inv w s" shows "zbdd_inv w (s\<lparr> modules := m \<rparr>)"
proof -
  have n: "nodes (s\<lparr> modules := m \<rparr>) = nodes s" by simp
  have "subsume_inv (s\<lparr> modules := m \<rparr>)"
    using assms unfolding zbdd_inv_def subsume_inv_def sub_post_def
    by (simp add: same_nodes_rep[OF n] same_nodes_fully_min[OF n])
  moreover have "minimal_inv (s\<lparr> modules := m \<rparr>)"
    using assms unfolding zbdd_inv_def minimal_inv_def min_post_def
    by (simp add: same_nodes_rep[OF n] same_nodes_fully_min[OF n])
  ultimately show ?thesis using same_nodes_inv[OF assms n] by simp
qed

lemma zbdd_inv_root: assumes "zbdd_inv w s" shows "zbdd_inv w (s\<lparr> root := r \<rparr>)"
proof -
  have n: "nodes (s\<lparr> root := r \<rparr>) = nodes s" by simp
  have "subsume_inv (s\<lparr> root := r \<rparr>)"
    using assms unfolding zbdd_inv_def subsume_inv_def sub_post_def
    by (simp add: same_nodes_rep[OF n] same_nodes_fully_min[OF n])
  moreover have "minimal_inv (s\<lparr> root := r \<rparr>)"
    using assms unfolding zbdd_inv_def minimal_inv_def min_post_def
    by (simp add: same_nodes_rep[OF n] same_nodes_fully_min[OF n])
  ultimately show ?thesis using same_nodes_inv[OF assms n] by simp
qed

lemma inv_structure:
  assumes inv: "zbdd_inv w s" and nd: "nodes s i = Some nd"
  shows "structure_ok s nd"
proof -
  have ni: "node_inv w s i nd" by (rule inv_node[OF inv nd])
  then obtain t where t: "rep s (SetNodeRef i) t" "ordered w t" unfolding node_inv_def by blast
  from t(1) nd obtain hh hl where tt: "t = Nd (index nd) hh hl"
    and rhh: "rep s (high nd) hh" and rhl: "rep s (low nd) hl"
    by (auto simp: rep_SetNodeRef_iff)
  have ord: "order nd = w (index nd)" using ni by (simp add: node_inv_def)
  have hne: "hh \<noteq> Leaf False"
    and chh: "case hh of Leaf b \<Rightarrow> True | Nd z a b \<Rightarrow> below_high w (index nd) z"
    and chl: "case hl of Leaf b \<Rightarrow> True | Nd z a b \<Rightarrow> below_low w (index nd) z"
    using t(2) tt by simp_all
  have 1: "high nd \<noteq> kEmpty"
  proof
    assume "high nd = kEmpty"
    then have "hh = Leaf False" using rhh by (simp add: rep_Terminal_iff)
    then show False using hne by simp
  qed
  have "valid_id (high nd)" "valid_id (low nd)" using rep_valid_id[OF inv] rhh rhl by blast+
  moreover have "high nd \<noteq> low nd" using ni by (simp add: node_inv_def)
  ultimately have 2: "vertex_id (high nd) \<noteq> vertex_id (low nd)" using vertex_id_inj by blast
  have 3: "edge_ordered s nd (high nd)"
  proof (cases "high nd")
    case (Terminal b) then show ?thesis by (simp add: edge_ordered_def)
  next
    case (SetNodeRef j)
    then obtain cn a b where cn: "nodes s j = Some cn" "hh = Nd (index cn) a b"
      using rhh by (auto simp: rep_SetNodeRef_iff)
    have "order cn = w (index cn)" using inv_node[OF inv cn(1)] by (simp add: node_inv_def)
    then show ?thesis using SetNodeRef cn chh ord by (simp add: edge_ordered_def below_high_def)
  qed
  have 4: "edge_ordered s nd (low nd)"
  proof (cases "low nd")
    case (Terminal b) then show ?thesis by (simp add: edge_ordered_def)
  next
    case (SetNodeRef j)
    then obtain cn a b where cn: "nodes s j = Some cn" "hl = Nd (index cn) a b"
      using rhl by (auto simp: rep_SetNodeRef_iff)
    have "order cn = w (index cn)" using inv_node[OF inv cn(1)] by (simp add: node_inv_def)
    then show ?thesis using SetNodeRef cn chl ord by (simp add: edge_ordered_def below_low_def)
  qed
  have 5: "minimal nd \<longrightarrow> fully_min s (high nd) \<and> fully_min s (low nd)"
    using ni by (simp add: node_inv_def)
  show ?thesis unfolding structure_ok_def using 1 2 3 4 5 by simp
qed

lemma ext_frame:
  assumes "ext s s'"
  shows "root s' = root s" "modules s' = modules s" "limit_order s' = limit_order s"
  using assms unfolding ext_def by blast+

lemma MinimizeModules_correct:
  assumes "zbdd_inv w s" "rep s (root s) t0" "modules_bounded n s"
  shows "\<exists>s'. MinimizeModules n ks s = Some s' \<and> zbdd_inv w s' \<and> rep s' (root s') t0 \<and>
              modules_bounded n s'"
  using assms
proof (induction ks arbitrary: s)
  case Nil
  then show ?case by simp
next
  case (Cons k ks)
  show ?case
  proof (cases "modules s k")
    case None
    then show ?thesis using Cons.IH[OF Cons.prems] by simp
  next
    case (Some v)
    then obtain t where t: "rep s v t" "2 * height t < n"
      using Cons.prems(3) unfolding modules_bounded_def by blast
    define mi where "mi = Minimize n"
    have ms: "min_spec w n mi" unfolding mi_def by (rule Minimize_correct)
    from min_spec_use[OF ms Cons.prems(1) t]
    obtain r s1 tr where c: "mi v s = Some (r, s1)" "zbdd_inv w s1" "ext s s1"
      "fully_min s1 r" "rep s1 r tr" "family tr = minimal_sets (family t)"
      "indices tr \<subseteq> indices t" "height tr \<le> height t" by blast
    define s2 where "s2 = s1\<lparr> modules := (modules s1)(k \<mapsto> r) \<rparr>"
    have n2: "nodes s2 = nodes s1" by (simp add: s2_def)
    have i2: "zbdd_inv w s2" unfolding s2_def by (rule zbdd_inv_modules[OF c(2)])
    have fr: "root s1 = root s" "modules s1 = modules s" using ext_frame[OF c(3)] by simp_all
    have "root s2 = root s" using fr(1) by (simp add: s2_def)
    moreover have "rep s2 (root s) t0"
      using rep_ext[OF c(3) Cons.prems(2)] same_nodes_rep[OF n2] by simp
    ultimately have rt: "rep s2 (root s2) t0" by simp
    have mb: "modules_bounded n s2"
      unfolding modules_bounded_def
    proof (intro allI impI)
      fix k' v' assume a: "modules s2 k' = Some v'"
      show "\<exists>t. rep s2 v' t \<and> 2 * height t < n"
      proof (cases "k' = k")
        case True
        then have "v' = r" using a by (simp add: s2_def)
        moreover have "rep s2 r tr" using c(5) same_nodes_rep[OF n2] by simp
        moreover have "2 * height tr < n" using c(8) t(2) by simp
        ultimately show ?thesis by blast
      next
        case False
        then have "modules s k' = Some v'" using a fr(2) by (simp add: s2_def)
        then obtain t' where t': "rep s v' t'" "2 * height t' < n"
          using Cons.prems(3) unfolding modules_bounded_def by blast
        have "rep s2 v' t'" using rep_ext[OF c(3) t'(1)] same_nodes_rep[OF n2] by simp
        then show ?thesis using t'(2) by blast
      qed
    qed
    from Cons.IH[OF i2 rt mb] show ?thesis using Some c(1) by (simp add: s2_def mi_def)
  qed
qed

lemma reach_valid:
  assumes inv: "zbdd_inv w s" and r0: "\<exists>t. rep s (root s) t"
    and m: "\<forall>k v. modules s k = Some v \<longrightarrow> (\<exists>t. rep s v t)"
  shows "reach s v \<Longrightarrow> \<exists>t. rep s v t"
proof (induction rule: reach.induct)
  case reach_root
  show ?case by (rule r0)
next
  case (reach_module k v)
  then show ?case using m by blast
next
  case (reach_high i nd)
  then show ?case by (auto simp: rep_SetNodeRef_iff)
next
  case (reach_low i nd)
  then show ?case by (auto simp: rep_SetNodeRef_iff)
qed

lemma Analyze_minimize_correct:
  assumes inv: "zbdd_inv w s" and r0: "rep s (root s) t0" and h0: "2 * height t0 < n"
    and mb: "modules_bounded n s"
  shows "\<exists>s'. Analyze_minimize n ks s = Some s' \<and> zbdd_inv w s' \<and> fully_min s' (root s') \<and>
              (\<exists>t. rep s' (root s') t \<and> family t = minimal_sets (family t0)) \<and>
              (\<forall>i. reach s' (SetNodeRef i) \<longrightarrow> (\<exists>nd. nodes s' i = Some nd \<and> structure_ok s' nd))"
proof -
  from MinimizeModules_correct[OF inv r0 mb, of ks]
  obtain s1 where m: "MinimizeModules n ks s = Some s1" "zbdd_inv w s1" "rep s1 (root s1) t0"
    "modules_bounded n s1" by blast
  define mi where "mi = Minimize n"
  have ms: "min_spec w n mi" unfolding mi_def by (rule Minimize_correct)
  from min_spec_use[OF ms m(2) m(3) h0]
  obtain r s2 tr where c: "mi (root s1) s1 = Some (r, s2)" "zbdd_inv w s2" "ext s1 s2"
    "fully_min s2 r" "rep s2 r tr" "family tr = minimal_sets (family t0)"
    "indices tr \<subseteq> indices t0" "height tr \<le> height t0" by blast
  define s3 where "s3 = s2\<lparr> root := r \<rparr>"
  have n3: "nodes s3 = nodes s2" by (simp add: s3_def)
  have i3: "zbdd_inv w s3" unfolding s3_def by (rule zbdd_inv_root[OF c(2)])
  have ev: "Analyze_minimize n ks s = Some s3"
    using m(1) c(1) by (simp add: Analyze_minimize_def s3_def mi_def)
  have r3: "root s3 = r" by (simp add: s3_def)
  have "fully_min s3 r" using c(4) same_nodes_fully_min[OF n3] by simp
  then have fr: "fully_min s3 (root s3)" using r3 by simp
  have "rep s3 r tr" using c(5) same_nodes_rep[OF n3] by simp
  then have rr: "rep s3 (root s3) tr" using r3 by simp
  have mv: "\<forall>k v. modules s3 k = Some v \<longrightarrow> (\<exists>t. rep s3 v t)"
  proof (intro allI impI)
    fix k v assume "modules s3 k = Some v"
    then have "modules s1 k = Some v" using ext_frame(2)[OF c(3)] by (simp add: s3_def)
    then obtain t where t: "rep s1 v t" using m(4) unfolding modules_bounded_def by blast
    have "rep s3 v t" using rep_ext[OF c(3) t] same_nodes_rep[OF n3] by simp
    then show "\<exists>t. rep s3 v t" by blast
  qed
  have "\<forall>i. reach s3 (SetNodeRef i) \<longrightarrow> (\<exists>nd. nodes s3 i = Some nd \<and> structure_ok s3 nd)"
  proof (intro allI impI)
    fix i assume "reach s3 (SetNodeRef i)"
    from reach_valid[OF i3 _ mv this] rr obtain t where "rep s3 (SetNodeRef i) t" by blast
    then obtain nd where "nodes s3 i = Some nd" by (auto simp: rep_SetNodeRef_iff)
    then show "\<exists>nd. nodes s3 i = Some nd \<and> structure_ok s3 nd"
      using inv_structure[OF i3] by blast
  qed
  then show ?thesis using ev i3 fr rr c(6) by blast
qed

subsection \<open>The example states satisfy the invariant\<close>

lemma spine_state_eval:
  "nodes spine_state 2 = Some \<lparr> index = 2, order = 2, high = kBase, low = kEmpty, module = False,
      minimal = True, mark = False, node_cut_sets = [] \<rparr>"
  "nodes spine_state 3 = Some \<lparr> index = 1, order = 1, high = SetNodeRef 2, low = kEmpty,
      module = False, minimal = True, mark = False, node_cut_sets = [] \<rparr>"
  by (simp_all add: spine_state_def FetchUniqueTable_def Zbdd_init_def set_minimal_def)

lemma spine_state_inv: "zbdd_inv (\<lambda>i. i) spine_state"
proof -
  define s0 where "s0 = Zbdd_init 5"
  obtain v2 s1 where f1: "FetchUniqueTable 2 kBase kEmpty 2 False s0 = (v2, s1)"
    by (cases "FetchUniqueTable 2 kBase kEmpty 2 False s0") simp
  have v2: "v2 = SetNodeRef 2" using f1 by (auto simp: FetchUniqueTable_def s0_def Zbdd_init_def)
  have i0: "zbdd_inv (\<lambda>i. i) s0" unfolding s0_def by (rule zbdd_inv_init)
  have rb: "rep s0 kBase (Leaf True)" "rep s0 kEmpty (Leaf False)" by simp_all
  define s2 where "s2 = set_minimal v2 True s1"
  have a1: "antichain (family (Nd 2 (Leaf True) (Leaf False)))" by (simp add: antichain_def)
  from Fetch_minimal_correct[OF i0 rb _ _ _ a1 _ _ f1]
  have c1: "zbdd_inv (\<lambda>i. i) s2" "ext s0 s2" "fully_min s2 v2"
    "rep s2 v2 (Nd 2 (Leaf True) (Leaf False))"
    by (simp_all add: s2_def fully_min_def)
  obtain v1 s3 where f2: "FetchUniqueTable 1 v2 kEmpty 1 False s2 = (v1, s3)"
    by (cases "FetchUniqueTable 1 v2 kEmpty 1 False s2") simp
  have a2: "antichain (family (Nd 1 (Nd 2 (Leaf True) (Leaf False)) (Leaf False)))"
    by (simp add: antichain_def)
  have re: "rep s2 kEmpty (Leaf False)" by simp
  from Fetch_minimal_correct[OF c1(1) c1(4) re _ _ _ a2 c1(3) _ f2]
  have c2: "zbdd_inv (\<lambda>i. i) (set_minimal v1 True s3)"
    by (simp_all add: v2 fully_min_def below_high_def)
  have "spine_state = set_minimal v1 True s3"
    using f1 f2 by (simp add: spine_state_def s0_def s2_def)
  then show ?thesis using c2 by simp
qed

lemma Subsume_numeral: "Subsume (numeral k) h l s = Subsume (Suc (pred_numeral k)) h l s"
  by (simp add: numeral_eq_Suc)

lemma Minimize_numeral: "Minimize (numeral k) v s = Minimize (Suc (pred_numeral k)) v s"
  by (simp add: numeral_eq_Suc)

lemma Fetch_chain:
  assumes "zbdd_inv w s" "rep s h thi" "rep s l tlo" "h \<noteq> l" "ordered w (Nd x thi tlo)"
    "FetchUniqueTable x h l (w x) m s = (r, s')"
  shows "zbdd_inv w s'" "ext s s'" "rep s' r (Nd x thi tlo)"
  using Fetch_correct[OF assms(1-4) refl assms(5,6)] by simp_all

lemma nonminimal_state_eval:
  "nodes nonminimal_state 2 = Some \<lparr> index = 3, order = 3, high = kBase, low = kEmpty,
      module = False, minimal = False, mark = False, node_cut_sets = [] \<rparr>"
  "nodes nonminimal_state 3 = Some \<lparr> index = 2, order = 2, high = SetNodeRef 2, low = kEmpty,
      module = False, minimal = False, mark = False, node_cut_sets = [] \<rparr>"
  "nodes nonminimal_state 4 = Some \<lparr> index = 2, order = 2, high = kBase, low = kEmpty,
      module = False, minimal = False, mark = False, node_cut_sets = [] \<rparr>"
  "nodes nonminimal_state 5 = Some \<lparr> index = 1, order = 1, high = SetNodeRef 3,
      low = SetNodeRef 4, module = False, minimal = False, mark = False, node_cut_sets = [] \<rparr>"
  "root nonminimal_state = SetNodeRef 5"
  by (simp_all add: nonminimal_state_def FetchUniqueTable_def Zbdd_init_def)

lemma nonminimal_state_inv: "zbdd_inv (\<lambda>i. i) nonminimal_state"
proof -
  define s0 where "s0 = Zbdd_init 5"
  have i0: "zbdd_inv (\<lambda>i. i) s0" unfolding s0_def by (rule zbdd_inv_init)
  obtain v3 s1 where f1: "FetchUniqueTable 3 kBase kEmpty 3 False s0 = (v3, s1)"
    by (cases "FetchUniqueTable 3 kBase kEmpty 3 False s0") simp
  have v3: "v3 = SetNodeRef 2" using f1 by (auto simp: FetchUniqueTable_def s0_def Zbdd_init_def)
  have c1: "zbdd_inv (\<lambda>i. i) s1" "ext s0 s1" "rep s1 v3 (Nd 3 (Leaf True) (Leaf False))"
    using Fetch_chain[OF i0 _ _ _ _ f1, of "Leaf True" "Leaf False"] by simp_all
  obtain v23 s2 where f2: "FetchUniqueTable 2 v3 kEmpty 2 False s1 = (v23, s2)"
    by (cases "FetchUniqueTable 2 v3 kEmpty 2 False s1") simp
  have c2: "zbdd_inv (\<lambda>i. i) s2" "ext s1 s2"
    "rep s2 v23 (Nd 2 (Nd 3 (Leaf True) (Leaf False)) (Leaf False))"
    using Fetch_chain[OF c1(1) c1(3) _ _ _ f2, of "Leaf False"]
    by (simp_all add: v3 below_high_def)
  obtain v2 s3 where f3: "FetchUniqueTable 2 kBase kEmpty 2 False s2 = (v2, s3)"
    by (cases "FetchUniqueTable 2 kBase kEmpty 2 False s2") simp
  have c3: "zbdd_inv (\<lambda>i. i) s3" "ext s2 s3" "rep s3 v2 (Nd 2 (Leaf True) (Leaf False))"
    using Fetch_chain[OF c2(1) _ _ _ _ f3, of "Leaf True" "Leaf False"] by simp_all
  have r23: "rep s3 v23 (Nd 2 (Nd 3 (Leaf True) (Leaf False)) (Leaf False))"
    by (rule rep_ext[OF c3(2) c2(3)])
  obtain v1 s4 where f4: "FetchUniqueTable 1 v23 v2 1 False s3 = (v1, s4)"
    by (cases "FetchUniqueTable 1 v23 v2 1 False s3") simp
  have ne: "v23 \<noteq> v2"
  proof
    assume "v23 = v2"
    then have "Nd 2 (Nd 3 (Leaf True) (Leaf False)) (Leaf False) = Nd 2 (Leaf True) (Leaf False)"
      using rep_fun[OF r23] c3(3) by blast
    then show False by simp
  qed
  have c4: "zbdd_inv (\<lambda>i. i) s4"
    using Fetch_chain[OF c3(1) r23 c3(3) ne _ f4]
    by (simp_all add: below_high_def below_low_def)
  have "nonminimal_state = s4\<lparr> root := v1 \<rparr>"
    using f1 f2 f3 f4 by (simp add: nonminimal_state_def s0_def)
  then show ?thesis using zbdd_inv_root[OF c4, of v1] by simp
qed

lemma nonminimal_state_rep:
  "rep nonminimal_state (SetNodeRef 5)
     (Nd 1 (Nd 2 (Nd 3 (Leaf True) (Leaf False)) (Leaf False)) (Nd 2 (Leaf True) (Leaf False)))"
  by (simp add: nonminimal_state_eval)

lemma Apply_swap_same_state:
  assumes "\<not> same_variable s a b"
  shows "Apply n type a b lim s = Apply n type b a lim s"
proof (cases n)
  case 0 then show ?thesis by simp
next
  case (Suc k)
  show ?thesis
  proof (cases a)
    case ta: (Terminal t1)
    then show ?thesis using Suc by (cases b) (auto simp: Apply_Terminals_def split: Operator.splits)
  next
    case ra: (SetNodeRef i)
    show ?thesis
    proof (cases b)
      case (Terminal t2)
      then show ?thesis using Suc ra by simp
    next
      case rb: (SetNodeRef j)
      have key: "compute_key a b lim = compute_key b a lim"
        by (simp add: compute_key_def min.commute max.commute)
      have ft: "FetchComputeTable type a b lim s = FetchComputeTable type b a lim s"
        by (cases type) (simp_all add: FetchComputeTable_def compute_key_def min.commute max.commute)
      have st: "\<And>r s1. StoreComputeTable type a b lim r s1 = StoreComputeTable type b a lim r s1"
        by (cases type) (simp_all add: StoreComputeTable_def compute_key_def min.commute max.commute)
      show ?thesis
      proof (cases "i = j")
        case True then show ?thesis using Suc ra rb by simp
      next
        case ne: False
        show ?thesis
        proof (cases "nodes s i")
          case None
          then show ?thesis using Suc ra rb ne ft by (simp split: option.splits)
        next
          case si: (Some n1)
          show ?thesis
          proof (cases "nodes s j")
            case None
            then show ?thesis using Suc ra rb ne ft si by (simp split: option.splits)
          next
            case sj: (Some n2)
            have d: "order n1 \<noteq> order n2 \<or> index n1 \<noteq> index n2"
              using assms ra rb si sj ne by (simp add: same_variable_def)
            have sw: "swap_args n2 n1 = (\<not> swap_args n1 n2)"
              using d by (auto simp: swap_args_def Let_def)
            have ne': "j \<noteq> i" using ne by simp
            show ?thesis
              using Suc ra rb ne ne' si sj sw ft st[unfolded ra rb] ft[unfolded ra rb]
              by (simp split: option.splits)
          qed
        qed
      qed
    qed
  qed
qed

lemma Apply_swap_after:
  assumes "Apply n type a b lim s = Some (v, s')"
  shows "Apply (Suc m) type b a lim s' = Some (v, s')"
proof (cases n)
  case 0 then show ?thesis using assms by simp
next
  case (Suc k)
  show ?thesis
  proof (cases "lim < 0")
    case True then show ?thesis using assms Suc by simp
  next
    case nl: False
    show ?thesis
    proof (cases a)
      case ta: (Terminal t1)
      then show ?thesis using assms Suc nl
        by (cases b) (auto simp: Apply_Terminals_def split: Operator.splits)
    next
      case ra: (SetNodeRef i)
      show ?thesis
      proof (cases b)
        case (Terminal t2)
        then show ?thesis using assms Suc ra nl by auto
      next
        case rb: (SetNodeRef j)
        have key: "compute_key a b lim = compute_key b a lim"
          by (simp add: compute_key_def min.commute max.commute)
        show ?thesis
        proof (cases "i = j")
          case True then show ?thesis using assms Suc ra rb nl by auto
        next
          case ne: False
          then have ne': "j \<noteq> i" by simp
          show ?thesis
          proof (cases "FetchComputeTable type a b lim s")
            case (Some r)
            then have "v = r" "s' = s" using assms Suc ra rb nl ne by auto
            moreover have "FetchComputeTable type b a lim s = Some r"
              using Some
              by (cases type) (simp_all add: FetchComputeTable_def compute_key_def min.commute max.commute)
            ultimately show ?thesis using ra rb nl ne' by simp
          next
            case None
            then obtain s1 where "s' = StoreComputeTable type a b lim v s1"
              using assms Suc ra rb nl ne by (auto split: option.splits if_splits bind_splits)
            then have "FetchComputeTable type b a lim s' = Some v"
              by (cases type) (simp_all add: FetchComputeTable_def StoreComputeTable_def
                    compute_key_def min.commute max.commute)
            then show ?thesis using ra rb nl ne' by simp
          qed
        qed
      qed
    qed
  qed
qed

section \<open>Properties of the unique table and of the terminal cases of Apply\<close>




text \<open>
  C5 (as the code has it).  The cut-off comes first: with a negative \<open>limit_order\<close>
  the result is \<open>EMPTY\<close> for all arguments.  With \<open>limit_order \<ge> 0\<close> the terminal
  cases hold in both argument positions, and two arguments with the same id give the
  first argument.  None of these cases changes the state.
\<close>

theorem Apply_terminal_cases:
  "(lim < 0 \<longrightarrow> Apply (Suc n) type a b lim s = Some (kEmpty, s)) \<and>
   (0 \<le> lim \<longrightarrow>
      Apply (Suc n) kOrGate kEmpty x lim s = Some (x, s) \<and>
      Apply (Suc n) kOrGate x kEmpty lim s = Some (x, s) \<and>
      Apply (Suc n) kOrGate kBase x lim s = Some (kBase, s) \<and>
      Apply (Suc n) kOrGate x kBase lim s = Some (kBase, s) \<and>
      Apply (Suc n) kAndGate kEmpty x lim s = Some (kEmpty, s) \<and>
      Apply (Suc n) kAndGate x kEmpty lim s = Some (kEmpty, s) \<and>
      Apply (Suc n) kAndGate kBase x lim s = Some (x, s) \<and>
      Apply (Suc n) kAndGate x kBase lim s = Some (x, s) \<and>
      (valid_id a \<and> valid_id b \<and> vertex_id a = vertex_id b \<longrightarrow>
         Apply (Suc n) type a b lim s = Some (a, s)))"
  by (cases x; cases a; cases b; cases type)
     (auto simp: Apply_Terminals_def Apply_SetNode_Terminal_def valid_id_def split: if_splits)

theorem Apply_terminal_cases_witness:
  "(0::int) \<le> 3 \<and> valid_id (SetNodeRef 2) \<and>
   vertex_id (SetNodeRef 2) = vertex_id (SetNodeRef 2) \<and>
   Apply (Suc 0) kOrGate kBase (SetNodeRef 2) 3 (Zbdd_init 3) = Some (kBase, Zbdd_init 3) \<and>
   Apply (Suc 0) kAndGate (SetNodeRef 2) (SetNodeRef 2) 3 (Zbdd_init 3) =
     Some (SetNodeRef 2, Zbdd_init 3) \<and>
   Apply (Suc 0) kAndGate (SetNodeRef 2) (SetNodeRef 2) (- 1) (Zbdd_init 3) =
     Some (kEmpty, Zbdd_init 3)"
  using Apply_terminal_cases
          [of 3 0 kAndGate "SetNodeRef 2" "SetNodeRef 2" "Zbdd_init 3" "SetNodeRef 2"]
        Apply_terminal_cases
          [of "- 1" 0 kAndGate "SetNodeRef 2" "SetNodeRef 2" "Zbdd_init 3" "SetNodeRef 2"]
  by (simp add: valid_id_def)

text \<open>
  C5 as stated fails: \<open>OR(BASE, x)\<close> is not \<open>BASE\<close> for every \<open>limit_order\<close>; with
  \<open>limit_order = -1\<close> it is \<open>EMPTY\<close>.
\<close>

theorem Apply_Base_negative_limit_counterexample:
  "Apply (Suc 0) kOrGate kBase kBase (- 1) (Zbdd_init 5) = Some (kEmpty, Zbdd_init 5) \<and>
   Apply (Suc 0) kOrGate kBase kBase (- 1) (Zbdd_init 5) \<noteq> Some (kBase, Zbdd_init 5)"
  by simp

section \<open>Subsume\<close>

text \<open>
  C6 (as the code has it).  \<^verbatim>\<open>Subsume\<close> is called by \<^verbatim>\<open>Minimize\<close> on two minimized
  branches.  For a state that satisfies the invariant, a \<open>high\<close> that is flagged
  minimal and a \<open>low\<close> whose family is an antichain, \<open>Subsume n high low\<close> returns,
  for every bound \<open>n\<close> above the sum of the two heights, a vertex whose family is
  the sets of \<open>high\<close> that include no set of \<open>low\<close>.  The terminal cases hold in
  every state, the test of \<open>low\<close> coming first: \<open>Subsume(high, EMPTY) = high\<close>,
  \<open>Subsume(high, BASE) = EMPTY\<close>, and a terminal \<open>high\<close> is returned when \<open>low\<close>
  is a set node.
\<close>

theorem Subsume_family:
  assumes "zbdd_inv w s" and "rep s h thi" and "rep s l tlo"
    and "fully_min s h" and "antichain (family tlo)" and "height thi + height tlo < n"
  shows "(\<exists>r s' tr. Subsume n h l s = Some (r, s') \<and> rep s' r tr \<and>
            family tr = without (family thi) (family tlo)) \<and>
         Subsume (Suc m) v kEmpty s0 = Some (v, s0) \<and>
         Subsume (Suc m) v kBase s0 = Some (kEmpty, s0) \<and>
         Subsume (Suc m) (Terminal b) (SetNodeRef j) s0 = Some (Terminal b, s0)"
proof -
  have sp: "sub_spec w n (Subsume n)" by (rule Subsume_correct)
  from sub_spec_use[OF sp assms]
  obtain r s' tr where "Subsume n h l s = Some (r, s')" "zbdd_inv w s'" "ext s s'"
    "fully_min s' r" "rep s' r tr" "family tr = without (family thi) (family tlo)"
    "indices tr \<subseteq> indices thi" "height tr \<le> height thi" by blast
  then have "\<exists>r s' tr. Subsume n h l s = Some (r, s') \<and> rep s' r tr \<and>
      family tr = without (family thi) (family tlo)" by blast
  then show ?thesis by simp
qed

theorem Subsume_family_witness:
  "zbdd_inv (\<lambda>i. i) spine_state \<and>
   rep spine_state (SetNodeRef 3) (Nd 1 (Nd 2 (Leaf True) (Leaf False)) (Leaf False)) \<and>
   rep spine_state (SetNodeRef 2) (Nd 2 (Leaf True) (Leaf False)) \<and>
   fully_min spine_state (SetNodeRef 3) \<and>
   antichain (family (Nd 2 (Leaf True) (Leaf False))) \<and>
   (\<exists>r s' tr. Subsume 4 (SetNodeRef 3) (SetNodeRef 2) spine_state = Some (r, s') \<and>
      rep s' r tr \<and>
      family tr = without (family (Nd 1 (Nd 2 (Leaf True) (Leaf False)) (Leaf False)))
                          (family (Nd 2 (Leaf True) (Leaf False)))) \<and>
   map_option fst (Subsume 4 (SetNodeRef 3) (SetNodeRef 2) spine_state) = Some kEmpty"
proof -
  have r3: "rep spine_state (SetNodeRef 3) (Nd 1 (Nd 2 (Leaf True) (Leaf False)) (Leaf False))"
    by (simp add: spine_state_eval)
  have r2: "rep spine_state (SetNodeRef 2) (Nd 2 (Leaf True) (Leaf False))"
    by (simp add: spine_state_eval)
  have fm: "fully_min spine_state (SetNodeRef 3)"
    by (simp add: fully_min_def spine_state_eval)
  have ac: "antichain (family (Nd 2 (Leaf True) (Leaf False)))"
    by (simp add: antichain_def)
  have ht: "height (Nd 1 (Nd 2 (Leaf True) (Leaf False)) (Leaf False)) +
            height (Nd 2 (Leaf True) (Leaf False)) < 4" by simp
  have ev: "map_option fst (Subsume 4 (SetNodeRef 3) (SetNodeRef 2) spine_state) = Some kEmpty"
    by code_simp
  from Subsume_family[OF spine_state_inv r3 r2 fm ac ht]
  have "\<exists>r s' tr. Subsume 4 (SetNodeRef 3) (SetNodeRef 2) spine_state = Some (r, s') \<and>
      rep s' r tr \<and>
      family tr = without (family (Nd 1 (Nd 2 (Leaf True) (Leaf False)) (Leaf False)))
                          (family (Nd 2 (Leaf True) (Leaf False)))"
    by (rule conjunct1)
  then show ?thesis using spine_state_inv r3 r2 fm ac ev by blast
qed

text \<open>
  C6 as stated fails for a terminal \<open>high\<close>.  With \<open>high = low = BASE\<close> the result is
  \<open>EMPTY\<close>, not \<open>high\<close>.  With \<open>high = BASE\<close> and a set node \<open>low\<close> whose family
  \<open>{{}, {1, 2}}\<close> holds the empty set, the result is \<open>BASE\<close>, although the only set
  of \<open>high\<close> includes a set of \<open>low\<close>.
\<close>

theorem Subsume_terminal_high_counterexample:
  "Subsume (Suc 0) kBase kBase (Zbdd_init 5) = Some (kEmpty, Zbdd_init 5) \<and>
   rep base_low_state (SetNodeRef 3) (Nd 1 (Nd 2 (Leaf True) (Leaf False)) (Leaf True)) \<and>
   Subsume (Suc 0) kBase (SetNodeRef 3) base_low_state = Some (kBase, base_low_state) \<and>
   without (family (Leaf True)) (family (Nd 1 (Nd 2 (Leaf True) (Leaf False)) (Leaf True))) = {}"
proof -
  have "rep base_low_state (SetNodeRef 3) (Nd 1 (Nd 2 (Leaf True) (Leaf False)) (Leaf True))"
    by (simp add: base_low_state_def FetchUniqueTable_def Zbdd_init_def)
  moreover have "without (family (Leaf True))
      (family (Nd 1 (Nd 2 (Leaf True) (Leaf False)) (Leaf True))) = {}"
    by (simp add: without_def)
  ultimately show ?thesis by simp
qed

section \<open>Minimize\<close>

text \<open>
  C7.  In a state that satisfies the invariant, \<open>Minimize\<close> returns for every vertex
  \<open>v\<close> of the diagram (with a bound above twice its height); the vertex \<open>r\<close> it
  returns is a terminal or a node flagged minimal, and \<open>Minimize\<close> on \<open>r\<close> in the
  state left by the first call returns \<open>r\<close> itself and leaves the state as it is.
\<close>

theorem Minimize_idempotent:
  assumes "zbdd_inv w s" and "rep s v t" and "2 * height t < n"
  shows "\<exists>r s'. Minimize n v s = Some (r, s') \<and> fully_min s' r \<and>
                Minimize n r s' = Some (r, s')"
proof -
  have sp: "min_spec w n (Minimize n)" by (rule Minimize_correct)
  from min_spec_use[OF sp assms]
  obtain r s' tr where c: "Minimize n v s = Some (r, s')" "zbdd_inv w s'" "ext s s'"
    "fully_min s' r" "rep s' r tr" "family tr = minimal_sets (family t)"
    "indices tr \<subseteq> indices t" "height tr \<le> height t" by blast
  obtain m where m: "n = Suc m" using assms(3) by (cases n) simp_all
  have "Minimize n r s' = Some (r, s')" unfolding m by (rule Minimize_fixed[OF c(4)])
  then show ?thesis using c(1) c(4) by blast
qed

theorem Minimize_idempotent_witness:
  "zbdd_inv (\<lambda>i. i) nonminimal_state \<and>
   rep nonminimal_state (SetNodeRef 5)
     (Nd 1 (Nd 2 (Nd 3 (Leaf True) (Leaf False)) (Leaf False)) (Nd 2 (Leaf True) (Leaf False))) \<and>
   (\<exists>r s'. Minimize 7 (SetNodeRef 5) nonminimal_state = Some (r, s') \<and> fully_min s' r \<and>
      Minimize 7 r s' = Some (r, s')) \<and>
   map_option fst (Minimize 7 (SetNodeRef 5) nonminimal_state) = Some (SetNodeRef 4)"
proof -
  have ht: "2 * height (Nd 1 (Nd 2 (Nd 3 (Leaf True) (Leaf False)) (Leaf False))
                             (Nd 2 (Leaf True) (Leaf False))) < 7" by simp
  have ev: "map_option fst (Minimize 7 (SetNodeRef 5) nonminimal_state) = Some (SetNodeRef 4)"
    by code_simp
  from Minimize_idempotent[OF nonminimal_state_inv nonminimal_state_rep ht]
  show ?thesis using nonminimal_state_inv nonminimal_state_rep ev by blast
qed

section \<open>The structure of the diagram after minimization\<close>

text \<open>
  C8.  Let the state left by the construction satisfy the invariant, with the root and
  every entry of the module table pointing into the diagram.  Then the minimization
  phase of \<^verbatim>\<open>Analyze\<close> returns (for a bound above twice the heights), and in the state
  it leaves every set node that is reachable from the root or from an entry of the
  module table exists and passes the tests of \<^verbatim>\<open>TestStructure\<close>: its high branch is
  not \<open>EMPTY\<close>, the ids of its branches differ, both edges respect the ordering, and
  the branches of a node flagged minimal are terminals or flagged minimal.
\<close>

theorem Analyze_minimize_structure:
  assumes "zbdd_inv w s" and "rep s (root s) t0" and "2 * height t0 < n"
    and "modules_bounded n s"
  shows "\<exists>s'. Analyze_minimize n ks s = Some s' \<and> fully_min s' (root s') \<and>
              (\<forall>i. reach s' (SetNodeRef i) \<longrightarrow>
                   (\<exists>nd. nodes s' i = Some nd \<and> structure_ok s' nd))"
  using Analyze_minimize_correct[OF assms, of ks] by blast

theorem Analyze_minimize_structure_witness:
  "zbdd_inv (\<lambda>i. i) module_state \<and>
   rep module_state (root module_state)
     (Nd 1 (Nd 2 (Nd 3 (Leaf True) (Leaf False)) (Leaf False)) (Nd 2 (Leaf True) (Leaf False))) \<and>
   modules module_state 4 = Some (SetNodeRef 3) \<and>
   modules_bounded 7 module_state \<and>
   (\<exists>s'. Analyze_minimize 7 [4] module_state = Some s' \<and> fully_min s' (root s') \<and>
         (\<forall>i. reach s' (SetNodeRef i) \<longrightarrow>
              (\<exists>nd. nodes s' i = Some nd \<and> structure_ok s' nd)))"
proof -
  have n: "nodes module_state = nodes nonminimal_state" by (simp add: module_state_def)
  have i: "zbdd_inv (\<lambda>i. i) module_state"
    unfolding module_state_def by (rule zbdd_inv_modules[OF nonminimal_state_inv])
  have rt: "root module_state = SetNodeRef 5"
    by (simp add: module_state_def nonminimal_state_eval)
  have r: "rep module_state (root module_state)
     (Nd 1 (Nd 2 (Nd 3 (Leaf True) (Leaf False)) (Leaf False)) (Nd 2 (Leaf True) (Leaf False)))"
    unfolding rt same_nodes_rep[OF n] by (rule nonminimal_state_rep)
  have ht: "2 * height (Nd 1 (Nd 2 (Nd 3 (Leaf True) (Leaf False)) (Leaf False))
                             (Nd 2 (Leaf True) (Leaf False))) < 7" by simp
  have m4: "modules module_state 4 = Some (SetNodeRef 3)" by (simp add: module_state_def)
  have "rep nonminimal_state (SetNodeRef 3) (Nd 2 (Nd 3 (Leaf True) (Leaf False)) (Leaf False))"
    by (simp add: nonminimal_state_eval)
  then have r3: "rep module_state (SetNodeRef 3) (Nd 2 (Nd 3 (Leaf True) (Leaf False)) (Leaf False))"
    unfolding same_nodes_rep[OF n] .
  have mb: "modules_bounded 7 module_state"
    unfolding modules_bounded_def
  proof (intro allI impI)
    fix k v assume "modules module_state k = Some v"
    then have "v = SetNodeRef 3" by (simp add: module_state_def split: if_splits)
    then have "rep module_state v (Nd 2 (Nd 3 (Leaf True) (Leaf False)) (Leaf False)) \<and>
        2 * height (Nd 2 (Nd 3 (Leaf True) (Leaf False)) (Leaf False)) < 7"
      using r3 by simp
    then show "\<exists>t. rep module_state v t \<and> 2 * height t < 7" by blast
  qed
  from Analyze_minimize_structure[OF i r ht mb, of "[4]"]
  show ?thesis using i r m4 mb by blast
qed

section \<open>The order of the arguments of Apply\<close>

text \<open>
  C10 (as the code has it).  From the same state, \<open>Apply\<close> gives the same result and
  the same state for both orders of the arguments unless they are two distinct set
  nodes of one variable (same order and same index): the two swaps then pass the
  arguments on in the order of the call.  For all arguments, a call that follows a call
  with the arguments exchanged returns the vertex of that call and leaves the state as
  it is, since the result is found under the key of the unordered pair of ids.
\<close>

theorem Apply_exchange:
  "(\<not> same_variable s a b \<longrightarrow> Apply n type a b lim s = Apply n type b a lim s) \<and>
   (Apply n type a b lim s = Some (v, s') \<longrightarrow> Apply (Suc m) type b a lim s' = Some (v, s'))"
  using Apply_swap_same_state[of s a b n type lim] Apply_swap_after[of n type a b lim s v s' m]
  by blast

theorem Apply_exchange_witness:
  "\<not> same_variable apply_state (SetNodeRef 4) (SetNodeRef 3) \<and>
   Apply 10 kOrGate (SetNodeRef 4) (SetNodeRef 3) 1 apply_state =
     Apply 10 kOrGate (SetNodeRef 3) (SetNodeRef 4) 1 apply_state \<and>
   map_option fst (Apply 10 kOrGate (SetNodeRef 4) (SetNodeRef 3) 1 apply_state) =
     Some (SetNodeRef 5) \<and>
   (\<exists>s'. Apply 10 kOrGate (SetNodeRef 4) (SetNodeRef 3) 1 apply_state =
            Some (SetNodeRef 5, s') \<and>
         Apply (Suc 0) kOrGate (SetNodeRef 3) (SetNodeRef 4) 1 s' = Some (SetNodeRef 5, s'))"
proof -
  have sv: "\<not> same_variable apply_state (SetNodeRef 4) (SetNodeRef 3)"
    by (simp add: same_variable_def apply_state_def FetchUniqueTable_def Zbdd_init_def)
  have ev: "map_option fst (Apply 10 kOrGate (SetNodeRef 4) (SetNodeRef 3) 1 apply_state) =
     Some (SetNodeRef 5)" by code_simp
  then obtain s' where s': "Apply 10 kOrGate (SetNodeRef 4) (SetNodeRef 3) 1 apply_state =
     Some (SetNodeRef 5, s')" by (auto simp: map_option_case split: option.splits)
  from Apply_exchange[of apply_state "SetNodeRef 4" "SetNodeRef 3" 10 kOrGate 1 "SetNodeRef 5" s' 0]
  show ?thesis using sv ev s' by blast
qed

text \<open>
  C10 as stated fails for two distinct nodes of the same variable.  Node 4 is
  \<open>{{1, 2}}\<close>, node 5 is \<open>{{1, 2}, {3}}\<close>; with \<open>limit_order = 1\<close> the conjunction of
  node 4 and node 5 is \<open>EMPTY\<close>, and the conjunction of node 5 and node 4, from the
  same state, is node 4.
\<close>

theorem Apply_same_variable_counterexample:
  "rep apply_state (SetNodeRef 4) (Nd 1 (Nd 2 (Leaf True) (Leaf False)) (Leaf False)) \<and>
   rep apply_state (SetNodeRef 5)
     (Nd 1 (Nd 2 (Leaf True) (Leaf False)) (Nd 3 (Leaf True) (Leaf False))) \<and>
   map_option fst (Apply 10 kAndGate (SetNodeRef 4) (SetNodeRef 5) 1 apply_state) = Some kEmpty \<and>
   map_option fst (Apply 10 kAndGate (SetNodeRef 5) (SetNodeRef 4) 1 apply_state) =
     Some (SetNodeRef 4)"
proof -
  have "rep apply_state (SetNodeRef 4) (Nd 1 (Nd 2 (Leaf True) (Leaf False)) (Leaf False))"
    by (simp add: apply_state_def FetchUniqueTable_def Zbdd_init_def)
  moreover have "rep apply_state (SetNodeRef 5)
     (Nd 1 (Nd 2 (Leaf True) (Leaf False)) (Nd 3 (Leaf True) (Leaf False)))"
    by (simp add: apply_state_def FetchUniqueTable_def Zbdd_init_def)
  moreover have
    "map_option fst (Apply 10 kAndGate (SetNodeRef 4) (SetNodeRef 5) 1 apply_state) = Some kEmpty"
    by code_simp
  moreover have
    "map_option fst (Apply 10 kAndGate (SetNodeRef 5) (SetNodeRef 4) 1 apply_state) =
     Some (SetNodeRef 4)"
    by code_simp
  ultimately show ?thesis by blast
qed

end
